theory Spec2Isabelle
  imports Main
begin

section \<open>Data model of the firebase topic driver\<close>

text \<open>
  A non-nil Go \<^verbatim>\<open>error\<close> is identified by its message; the nil error is \<open>None\<close> of
  \<open>error option\<close>. The error codes are those of \<^verbatim>\<open>gocloud.dev/gcerrors\<close>.
\<close>

type_synonym error = string

datatype ErrorCode =
    OK | Unknown | NotFound | AlreadyExists | InvalidArgument | Internal
  | Unimplemented | FailedPrecondition | PermissionDenied | ResourceExhausted
  | Canceled | DeadlineExceeded

text \<open>
  \<^verbatim>\<open>messaging.SendResponse\<close> and \<^verbatim>\<open>messaging.BatchResponse\<close>. The counts are Go
  \<^verbatim>\<open>int\<close>s that the driver only compares and converts to \<^verbatim>\<open>int64\<close>; no arithmetic is
  done on them, so they are mathematical integers here.
\<close>

record SendResponse =
  Success :: bool
  MessageID :: string
  Error :: "error option"

record BatchResponse =
  SuccessCount :: int
  FailureCount :: int
  Responses :: "SendResponse list"

text \<open>
  \<^verbatim>\<open>driver.Message\<close>, with the fields the driver reads. The backend message type
  \<^verbatim>\<open>messaging.Message\<close> is the parameter \<open>'m\<close>; \<open>'w\<close> is the state of everything outside
  the driver (the caller's variables, the backend, the clock).

  A hook is a Go closure taking a type-recovery accessor. It is modelled by what it does
  when invoked: given the object the accessor exposes (the decoded message for
  \<^verbatim>\<open>BeforeSend\<close>, the response entry for \<^verbatim>\<open>AfterSend\<close>) and the outside state, it returns
  its error (or nil), the object as it left it (the accessor hands out a pointer), and the
  new outside state. A nil hook is \<open>None\<close>.
\<close>

record ('m, 'w) driver_Message =
  Body :: string
  BeforeSend :: "('m \<Rightarrow> 'w \<Rightarrow> error option \<times> 'm \<times> 'w) option"
  AfterSend :: "(SendResponse \<Rightarrow> 'w \<Rightarrow> error option \<times> SendResponse \<times> 'w) option"

text \<open>
  \<^verbatim>\<open>batcher.Options\<close>, the metrics interface and the logger. An implementation of
  \<^verbatim>\<open>countMetricInterface\<close> and a \<^verbatim>\<open>*zap.Logger\<close> are opaque handles: what is observed of
  them is the calls made on them, recorded as events. A nil interface or pointer is
  \<open>None\<close>, and a method call on it is a run-time panic: at the call for the nil
  interface, inside \<^verbatim>\<open>Logger.Error\<close>, which reads the logger's core, for the nil
  \<^verbatim>\<open>*zap.Logger\<close>.
\<close>

record batcher_Options =
  MaxHandlers :: int
  MinBatchSize :: int
  MaxBatchSize :: int
  MaxBatchByteSize :: int

datatype countMetricInterface = MetricSink

datatype zap_Logger = ZapLogger

record TopicOptions =
  DryRun :: bool
  BacherOptions :: "batcher_Options option"
  MetricService :: "countMetricInterface option"
  Tags :: "string list"
  Logger :: "zap_Logger option"

text \<open>
  \<^verbatim>\<open>messaging.Client\<close> with its two batch entry points. A Go result pair
  \<^verbatim>\<open>(resp, err)\<close> is a sum: \<open>Inl err\<close> for a non-nil \<^verbatim>\<open>err\<close>, \<open>Inr resp\<close> otherwise.
\<close>

record ('m, 'w) messaging_Client =
  SendAll :: "'m list \<Rightarrow> 'w \<Rightarrow> (error + BatchResponse) \<times> 'w"
  SendAllDryRun :: "'m list \<Rightarrow> 'w \<Rightarrow> (error + BatchResponse) \<times> 'w"

record ('m, 'w) fcmTopic =
  client :: "('m, 'w) messaging_Client"
  opts :: TopicOptions

text \<open>
  The observable events of one \<^verbatim>\<open>SendBatch\<close> call, in the order they happen:
  calls on the metrics sink (\<open>Timing stat duration tags\<close>, \<open>Count stat count tags\<close>),
  a call of \<^verbatim>\<open>Logger.Error\<close> (message, the \<^verbatim>\<open>from\<close> field, the error, and the
  request and response entities when they are logged), the invocation of the hook of
  the request at an index with what the hook returned, and the backend calls with the
  submitted entries and the backend's reply.
\<close>

datatype 'm event =
    is_Timing: Timing string int "string list"
  | is_Count: Count string int "string list"
  | is_LoggerError: LoggerError string string error "('m \<times> SendResponse) option"
  | is_BeforeSendCall: BeforeSendCall nat "error option"
  | is_AfterSendCall: AfterSendCall nat "error option"
  | is_SendAllCall: SendAllCall "'m list" "error + BatchResponse"
  | is_SendAllDryRunCall: SendAllDryRunCall "'m list" "error + BatchResponse"

record ('m, 'w) state =
  world :: 'w
  trace :: "'m event list"

text \<open>
  How a piece of the function body ends: it falls through with a value (\<open>Next\<close>), or
  the function stops, by a \<^verbatim>\<open>return\<close> of an error or nil, or by a run-time panic
  (a method call on a nil interface or pointer, an index out of range).
\<close>

datatype outcome = Return "error option" | Panic

datatype 'a exec = Next 'a | Stop outcome

section \<open>The capability shim\<close>

definition ErrorCode :: "error option \<Rightarrow> ErrorCode" where
  "ErrorCode err = (if err \<noteq> None then OK else Unknown)"

section \<open>Opening a topic\<close>

definition empty_TopicOptions :: TopicOptions where
  "empty_TopicOptions =
     \<lparr>DryRun = False, BacherOptions = None, MetricService = None, Tags = [], Logger = None\<rparr>"

definition openFCMTopic ::
  "('m, 'w) messaging_Client \<Rightarrow> TopicOptions option \<Rightarrow> ('m, 'w) fcmTopic" where
  "openFCMTopic cl os =
     \<lparr>client = cl, opts = (case os of None \<Rightarrow> empty_TopicOptions | Some os' \<Rightarrow> os')\<rparr>"

section \<open>SendBatch\<close>

text \<open>
  The first loop (source lines 64 to 82): per request, the payload is decoded, then
  the before-send hook, if any, runs on the decoded message, then the message is
  appended to the entries. \<open>unm\<close> is \<^verbatim>\<open>messaging.Message.UnmarshalJSON\<close>, \<open>n\<close> the index of
  the request at the head of the remaining list.
\<close>

fun decode_loop ::
  "(string \<Rightarrow> error + 'm) \<Rightarrow> nat \<Rightarrow> ('m, 'w) driver_Message list \<Rightarrow> 'm list \<Rightarrow>
   ('m, 'w) state \<Rightarrow> 'm list exec \<times> ('m, 'w) state" where
  "decode_loop unm n [] entries s = (Next entries, s)"
| "decode_loop unm n (dm # dms) entries s =
     (case unm (Body dm) of
        Inl err \<Rightarrow> (Stop (Return (Some err)), s)
      | Inr entry \<Rightarrow>
          (case BeforeSend dm of
             None \<Rightarrow> decode_loop unm (Suc n) dms (entries @ [entry]) s
           | Some hook \<Rightarrow>
               (case hook entry (world s) of
                  (r, entry', w') \<Rightarrow>
                    (case r of
                       Some err \<Rightarrow>
                         (Stop (Return (Some err)),
                          \<lparr>world = w', trace = trace s @ [BeforeSendCall n r]\<rparr>)
                     | None \<Rightarrow>
                         decode_loop unm (Suc n) dms (entries @ [entry'])
                           \<lparr>world = w', trace = trace s @ [BeforeSendCall n r]\<rparr>))))"

text \<open>
  The backend call (source lines 85 to 89): the dry-run entry point when the flag is
  set, the live one otherwise.
\<close>

definition send_entries ::
  "('m, 'w) fcmTopic \<Rightarrow> 'm list \<Rightarrow> ('m, 'w) state \<Rightarrow>
   (error + BatchResponse) \<times> ('m, 'w) state" where
  "send_entries t entries s =
     (if DryRun (opts t) then
        (case SendAllDryRun (client t) entries (world s) of
           (r, w') \<Rightarrow> (r, \<lparr>world = w', trace = trace s @ [SendAllDryRunCall entries r]\<rparr>))
      else
        (case SendAll (client t) entries (world s) of
           (r, w') \<Rightarrow> (r, \<lparr>world = w', trace = trace s @ [SendAllCall entries r]\<rparr>)))"

text \<open>The failure counter (source lines 96 to 98).\<close>

definition count_failures ::
  "('m, 'w) fcmTopic \<Rightarrow> BatchResponse \<Rightarrow> ('m, 'w) state \<Rightarrow> unit exec \<times> ('m, 'w) state" where
  "count_failures t resp s =
     (if 0 < FailureCount resp then
        (case MetricService (opts t) of
           None \<Rightarrow> (Stop Panic, s)
         | Some ms \<Rightarrow>
             (Next (),
              s\<lparr>trace := trace s @
                  [Count ''firebase.message.sendBatch.failure'' (FailureCount resp)
                     (Tags (opts t))]\<rparr>))
      else (Next (), s))"

text \<open>
  The invocation of the after-send hook of request \<open>n\<close>, as both later loops write it:
  nothing when the hook is nil; otherwise the hook runs on \<^verbatim>\<open>resp.Responses[n]\<close>,
  which the accessor reads (a panic when \<open>n\<close> is out of range), and a hook error is
  returned. Writes of the hook through the pointer stay in the response list.
\<close>

definition call_AfterSend ::
  "nat \<Rightarrow> ('m, 'w) driver_Message \<Rightarrow> SendResponse list \<Rightarrow> ('m, 'w) state \<Rightarrow>
   SendResponse list exec \<times> ('m, 'w) state" where
  "call_AfterSend n dm rs s =
     (case AfterSend dm of
        None \<Rightarrow> (Next rs, s)
      | Some hook \<Rightarrow>
          if length rs \<le> n then (Stop Panic, s)
          else
            (case hook (rs ! n) (world s) of
               (r, resp', w') \<Rightarrow>
                 (case r of
                    Some err \<Rightarrow>
                      (Stop (Return (Some err)),
                       \<lparr>world = w', trace = trace s @ [AfterSendCall n r]\<rparr>)
                  | None \<Rightarrow>
                      (Next (rs[n := resp']),
                       \<lparr>world = w', trace = trace s @ [AfterSendCall n r]\<rparr>))))"

text \<open>
  The second loop (source lines 100 to 122): per response entry, the after-send hook of
  a successful entry, then the log of an entry that carries an error.
\<close>

fun response_loop ::
  "zap_Logger option \<Rightarrow> 'm list \<Rightarrow> nat \<Rightarrow> ('m, 'w) driver_Message list \<Rightarrow>
   SendResponse list \<Rightarrow> ('m, 'w) state \<Rightarrow> SendResponse list exec \<times> ('m, 'w) state" where
  "response_loop lg entries n [] rs s = (Next rs, s)"
| "response_loop lg entries n (dm # dms) rs s =
     (if length rs \<le> n then (Stop Panic, s)
      else
        (case (if Success (rs ! n) then call_AfterSend n dm rs s else (Next rs, s)) of
           (Stop out, s') \<Rightarrow> (Stop out, s')
         | (Next rs', s') \<Rightarrow>
             (case Error (rs' ! n) of
                None \<Rightarrow> response_loop lg entries (Suc n) dms rs' s'
              | Some e \<Rightarrow>
                  if length entries \<le> n then (Stop Panic, s')
                  else
                    (case lg of
                       None \<Rightarrow> (Stop Panic, s')
                     | Some l \<Rightarrow>
                         response_loop lg entries (Suc n) dms rs'
                           (s'\<lparr>trace := trace s' @
                               [LoggerError ''Error from response entity''
                                  ''pubsub.firebase.sendBatch.resposneEntity'' e
                                  (Some (entries ! n, rs' ! n))]\<rparr>)))))"

text \<open>The third loop (source lines 125 to 138): every after-send hook, once more.\<close>

fun all_success_loop ::
  "nat \<Rightarrow> ('m, 'w) driver_Message list \<Rightarrow> SendResponse list \<Rightarrow> ('m, 'w) state \<Rightarrow>
   SendResponse list exec \<times> ('m, 'w) state" where
  "all_success_loop n [] rs s = (Next rs, s)"
| "all_success_loop n (dm # dms) rs s =
     (case call_AfterSend n dm rs s of
        (Stop out, s') \<Rightarrow> (Stop out, s')
      | (Next rs', s') \<Rightarrow> all_success_loop (Suc n) dms rs' s')"

text \<open>
  The part of the body after a backend call that returned a response (source lines 96 to
  140): the failure counter, the loop over the responses, and the loop over all
  after-send hooks when the success count equals the number of requests.
\<close>

definition handle_response ::
  "('m, 'w) fcmTopic \<Rightarrow> ('m, 'w) driver_Message list \<Rightarrow> 'm list \<Rightarrow> BatchResponse \<Rightarrow>
   ('m, 'w) state \<Rightarrow> outcome \<times> ('m, 'w) state" where
  "handle_response t dms entries resp s =
     (case count_failures t resp s of
        (Stop out, s') \<Rightarrow> (out, s')
      | (Next u, s') \<Rightarrow>
          (case response_loop (Logger (opts t)) entries 0 dms (Responses resp) s' of
             (Stop out, s'') \<Rightarrow> (out, s'')
           | (Next rs, s'') \<Rightarrow>
               if SuccessCount resp = int (length dms) then
                 (case all_success_loop 0 dms rs s'' of
                    (Stop out, s''') \<Rightarrow> (out, s''')
                  | (Next rs', s''') \<Rightarrow> (Return None, s'''))
               else (Return None, s'')))"

text \<open>
  The body of \<^verbatim>\<open>SendBatch\<close> without the deferred call (source lines 63 to 140). A
  call-level error of the backend is logged and returned.
\<close>

definition SendBatch_body ::
  "(string \<Rightarrow> error + 'm) \<Rightarrow> ('m, 'w) fcmTopic \<Rightarrow> ('m, 'w) driver_Message list \<Rightarrow>
   ('m, 'w) state \<Rightarrow> outcome \<times> ('m, 'w) state" where
  "SendBatch_body unm t dms s =
     (case decode_loop unm 0 dms [] s of
        (Stop out, s1) \<Rightarrow> (out, s1)
      | (Next entries, s1) \<Rightarrow>
          (case send_entries t entries s1 of
             (Inl err, s2) \<Rightarrow>
               (case Logger (opts t) of
                  None \<Rightarrow> (Panic, s2)
                | Some l \<Rightarrow>
                    (Return (Some err),
                     s2\<lparr>trace := trace s2 @
                         [LoggerError ''Error from response entity''
                            ''pubsub.firebase.sendBatch.response'' err None]\<rparr>))
           | (Inr resp, s2) \<Rightarrow> handle_response t dms entries resp s2))"

text \<open>
  \<^verbatim>\<open>SendBatch\<close>: the clock is read at entry, the body runs, and the deferred function
  runs on every way out of the body, a panic included. It calls \<^verbatim>\<open>Timing\<close> on the
  metrics sink with the time elapsed and the tags; on a nil sink that call panics.
  \<open>now\<close> reads the clock (\<^verbatim>\<open>time.Now\<close>) in the outside state. The call starts from the
  outside state \<open>w\<close> with no event yet.
\<close>

definition SendBatch ::
  "(string \<Rightarrow> error + 'm) \<Rightarrow> ('w \<Rightarrow> int) \<Rightarrow> ('m, 'w) fcmTopic \<Rightarrow>
   ('m, 'w) driver_Message list \<Rightarrow> 'w \<Rightarrow> outcome \<times> ('m, 'w) state" where
  "SendBatch unm now t dms w =
     (case SendBatch_body unm t dms \<lparr>world = w, trace = []\<rparr> of
        (out, s) \<Rightarrow>
          (case MetricService (opts t) of
             None \<Rightarrow> (Panic, s)
           | Some ms \<Rightarrow>
               (out,
                s\<lparr>trace := trace s @
                    [Timing ''firebase.messagine.sendBatch.latency'' (now (world s) - now w)
                       (Tags (opts t))]\<rparr>)))"

section \<open>The hooks as the specification describes them\<close>

text \<open>
  The before-send step in the specification's words: the payloads have been decoded to
  the messages \<open>ms\<close>; for each request in batch order, a before-send hook that is present
  is invoked once on the request's message, and a hook error aborts. The result is that
  error (or none), the messages as the hooks left them, the outside state, and the
  invocations in order. \<open>n\<close> is the index of the first request of the list.
\<close>

fun before_hooks_spec ::
  "nat \<Rightarrow> ('m, 'w) driver_Message list \<Rightarrow> 'm list \<Rightarrow> 'w \<Rightarrow>
   error option \<times> 'm list \<times> 'w \<times> 'm event list" where
  "before_hooks_spec n (dm # dms) (m # ms) w =
     (case BeforeSend dm of
        None \<Rightarrow>
          (case before_hooks_spec (Suc n) dms ms w of
             (e, ms', w', evs) \<Rightarrow> (e, m # ms', w', evs))
      | Some hook \<Rightarrow>
          (case hook m w of
             (r, m', w1) \<Rightarrow>
               (case r of
                  Some err \<Rightarrow> (Some err, [], w1, [BeforeSendCall n r])
                | None \<Rightarrow>
                    (case before_hooks_spec (Suc n) dms ms w1 of
                       (e, ms', w', evs) \<Rightarrow> (e, m' # ms', w', BeforeSendCall n r # evs)))))"
| "before_hooks_spec n dms ms w = (None, [], w, [])"

text \<open>
  The per-message reconciliation in the specification's words: for each request in batch
  order, with its response entry \<open>r\<close> and its submitted message \<open>m\<close>: if the entry signals
  success and the request has an after-send hook, the hook is invoked once on the entry,
  and a hook error aborts; then, if the entry carries an error, it is logged with the
  message and the entry. The result is the hook error (or none), the outside state, and
  the invocations and log calls in order.
\<close>

definition entry_log :: "'m \<Rightarrow> SendResponse \<Rightarrow> 'm event list" where
  "entry_log m r =
     (case Error r of
        None \<Rightarrow> []
      | Some e \<Rightarrow>
          [LoggerError ''Error from response entity''
             ''pubsub.firebase.sendBatch.resposneEntity'' e (Some (m, r))])"

fun after_hooks_spec ::
  "nat \<Rightarrow> ('m, 'w) driver_Message list \<Rightarrow> SendResponse list \<Rightarrow> 'm list \<Rightarrow> 'w \<Rightarrow>
   error option \<times> 'w \<times> 'm event list" where
  "after_hooks_spec n (dm # dms) (r # rs) (m # ms) w =
     (case (if Success r then AfterSend dm else None) of
        None \<Rightarrow>
          (case after_hooks_spec (Suc n) dms rs ms w of
             (e, w', evs) \<Rightarrow> (e, w', entry_log m r @ evs))
      | Some hook \<Rightarrow>
          (case hook r w of
             (x, r', w1) \<Rightarrow>
               (case x of
                  Some err \<Rightarrow> (Some err, w1, [AfterSendCall n x])
                | None \<Rightarrow>
                    (case after_hooks_spec (Suc n) dms rs ms w1 of
                       (e, w', evs) \<Rightarrow> (e, w', AfterSendCall n x # entry_log m r' @ evs)))))"
| "after_hooks_spec n dms rs ms w = (None, w, [])"

section \<open>Observations on a trace\<close>

text \<open>
  What a trace says about one call: the replies of the backend, the errors returned by
  before-send and by after-send hooks, and how often the hook of request \<open>i\<close> was
  invoked.
\<close>

fun reply_of :: "'m event \<Rightarrow> (error + BatchResponse) list" where
  "reply_of (SendAllCall es r) = [r]"
| "reply_of (SendAllDryRunCall es r) = [r]"
| "reply_of e = []"

definition backend_replies :: "'m event list \<Rightarrow> (error + BatchResponse) list" where
  "backend_replies tr = concat (map reply_of tr)"

fun BeforeSend_error_of :: "'m event \<Rightarrow> error list" where
  "BeforeSend_error_of (BeforeSendCall i (Some err)) = [err]"
| "BeforeSend_error_of e = []"

definition BeforeSend_errors :: "'m event list \<Rightarrow> error list" where
  "BeforeSend_errors tr = concat (map BeforeSend_error_of tr)"

fun AfterSend_error_of :: "'m event \<Rightarrow> error list" where
  "AfterSend_error_of (AfterSendCall i (Some err)) = [err]"
| "AfterSend_error_of e = []"

definition AfterSend_errors :: "'m event list \<Rightarrow> error list" where
  "AfterSend_errors tr = concat (map AfterSend_error_of tr)"

fun is_BeforeSend_of :: "nat \<Rightarrow> 'm event \<Rightarrow> bool" where
  "is_BeforeSend_of i (BeforeSendCall k r) = (k = i)"
| "is_BeforeSend_of i e = False"

definition BeforeSend_calls :: "nat \<Rightarrow> 'm event list \<Rightarrow> nat" where
  "BeforeSend_calls i tr = length (filter (is_BeforeSend_of i) tr)"

fun is_AfterSend_of :: "nat \<Rightarrow> 'm event \<Rightarrow> bool" where
  "is_AfterSend_of i (AfterSendCall k r) = (k = i)"
| "is_AfterSend_of i e = False"

definition AfterSend_calls :: "nat \<Rightarrow> 'm event list \<Rightarrow> nat" where
  "AfterSend_calls i tr = length (filter (is_AfterSend_of i) tr)"

text \<open>
  \<open>emits P s s'\<close>: the run from \<open>s\<close> to \<open>s'\<close> has only added events, all of kind \<open>P\<close>.
\<close>

definition emits :: "('m event \<Rightarrow> bool) \<Rightarrow> ('m, 'w) state \<Rightarrow> ('m, 'w) state \<Rightarrow> bool" where
  "emits P s s' \<longleftrightarrow> (\<exists>evs. trace s' = trace s @ evs \<and> (\<forall>e \<in> set evs. P e))"

text \<open>
  The comparison of the two modes: the topic with the flag cleared and the two entry
  points of its client exchanged, and the renaming of the backend call in the trace of
  a state.
\<close>

definition swap_entry_points :: "('m, 'w) messaging_Client \<Rightarrow> ('m, 'w) messaging_Client" where
  "swap_entry_points cl = \<lparr>SendAll = SendAllDryRun cl, SendAllDryRun = SendAll cl\<rparr>"

definition live_twin :: "('m, 'w) fcmTopic \<Rightarrow> ('m, 'w) fcmTopic" where
  "live_twin t = \<lparr>client = swap_entry_points (client t), opts = (opts t)\<lparr>DryRun := False\<rparr>\<rparr>"

definition map_trace :: "('m event \<Rightarrow> 'm event) \<Rightarrow> ('m, 'w) state \<Rightarrow> ('m, 'w) state" where
  "map_trace g s = s\<lparr>trace := map g (trace s)\<rparr>"

fun rename_call :: "'m event \<Rightarrow> 'm event" where
  "rename_call (SendAllCall es r) = SendAllDryRunCall es r"
| "rename_call (SendAllDryRunCall es r) = SendAllCall es r"
| "rename_call e = e"

section \<open>Sample inputs\<close>

text \<open>
  A sample message is the topic it is addressed to, and the sample payloads are the JSON
  objects \<^verbatim>\<open>{"topic":"..."}\<close> with a topic of lower-case letters. \<open>sample_unmarshal\<close>
  stands for \<^verbatim>\<open>messaging.Message.UnmarshalJSON\<close> on these payloads: it decodes such an
  object to its topic and rejects every other payload, among them text that is not JSON
  (\<open>bad\<close>, \<open>a\<close>, the empty payload). Its error stands for the one \<^verbatim>\<open>encoding/json\<close>
  reports. The outside state is a tick counter that is also the clock: a hook advances it
  by one, the sample backends by five.
\<close>

definition topic_payload :: "string \<Rightarrow> string" where
  "topic_payload n =
     ''{'' @ [CHR 0x22] @ ''topic'' @ [CHR 0x22] @ '':'' @ [CHR 0x22] @ n @ [CHR 0x22] @ ''}''"

fun strip_prefix :: "string \<Rightarrow> string \<Rightarrow> string option" where
  "strip_prefix [] b = Some b"
| "strip_prefix (p # ps) [] = None"
| "strip_prefix (p # ps) (c # cs) = (if p = c then strip_prefix ps cs else None)"

fun topic_name :: "string \<Rightarrow> string option" where
  "topic_name [] = None"
| "topic_name (c # cs) =
     (if c = CHR 0x22 then (if cs = ''}'' then Some [] else None)
      else if c \<in> set ''abcdefghijklmnopqrstuvwxyz''
      then (case topic_name cs of None \<Rightarrow> None | Some n \<Rightarrow> Some (c # n))
      else None)"

definition sample_unmarshal :: "string \<Rightarrow> error + string" where
  "sample_unmarshal b =
     (case strip_prefix (''{'' @ [CHR 0x22] @ ''topic'' @ [CHR 0x22] @ '':'' @ [CHR 0x22]) b of
        None \<Rightarrow> Inl ''invalid character''
      | Some rest \<Rightarrow>
          (case topic_name rest of
             None \<Rightarrow> Inl ''invalid character''
           | Some n \<Rightarrow> Inr n))"

definition sample_clock :: "nat \<Rightarrow> int" where
  "sample_clock w = int w"

text \<open>The sample before-send hook rewrites the topic of the message.\<close>

definition before_ok :: "string \<Rightarrow> nat \<Rightarrow> error option \<times> string \<times> nat" where
  "before_ok m w = (None, m @ ''-seen'', Suc w)"

definition after_ok :: "SendResponse \<Rightarrow> nat \<Rightarrow> error option \<times> SendResponse \<times> nat" where
  "after_ok r w = (None, r, Suc w)"

definition sent_ok :: SendResponse where
  "sent_ok = \<lparr>Success = True, MessageID = ''projects/p/messages/1'', Error = None\<rparr>"

definition sent_failed :: SendResponse where
  "sent_failed = \<lparr>Success = False, MessageID = [], Error = Some ''unregistered''\<rparr>"

definition sample_options :: TopicOptions where
  "sample_options =
     \<lparr>DryRun = False, BacherOptions = None, MetricService = Some MetricSink,
      Tags = [''env:test''], Logger = Some ZapLogger\<rparr>"

definition sample_topic :: "(string, nat) messaging_Client \<Rightarrow> (string, nat) fcmTopic" where
  "sample_topic cl = \<lparr>client = cl, opts = sample_options\<rparr>"

definition dry_run_topic :: "(string, nat) messaging_Client \<Rightarrow> (string, nat) fcmTopic" where
  "dry_run_topic cl = \<lparr>client = cl, opts = sample_options\<lparr>DryRun := True\<rparr>\<rparr>"

definition unlogged_topic :: "(string, nat) messaging_Client \<Rightarrow> (string, nat) fcmTopic" where
  "unlogged_topic cl = \<lparr>client = cl, opts = sample_options\<lparr>Logger := None\<rparr>\<rparr>"

text \<open>A backend that reports the given batch response, on both entry points.\<close>

definition replying_client :: "BatchResponse \<Rightarrow> (string, nat) messaging_Client" where
  "replying_client resp =
     \<lparr>SendAll = (\<lambda>es w. (Inr resp, w + 5)), SendAllDryRun = (\<lambda>es w. (Inr resp, w + 5))\<rparr>"

text \<open>A backend whose call fails on both entry points.\<close>

definition failing_client :: "(string, nat) messaging_Client" where
  "failing_client =
     \<lparr>SendAll = (\<lambda>es w. (Inl ''unavailable'', w + 5)),
      SendAllDryRun = (\<lambda>es w. (Inl ''unavailable'', w + 5))\<rparr>"

definition all_sent :: BatchResponse where
  "all_sent = \<lparr>SuccessCount = 1, FailureCount = 0, Responses = [sent_ok]\<rparr>"

definition partly_sent :: BatchResponse where
  "partly_sent =
     \<lparr>SuccessCount = 2, FailureCount = 1, Responses = [sent_ok, sent_failed, sent_ok]\<rparr>"

definition one_request :: "(string, nat) driver_Message list" where
  "one_request = [\<lparr>Body = topic_payload ''a'', BeforeSend = None, AfterSend = Some after_ok\<rparr>]"

definition three_requests :: "(string, nat) driver_Message list" where
  "three_requests =
     [\<lparr>Body = topic_payload ''a'', BeforeSend = Some before_ok, AfterSend = Some after_ok\<rparr>,
      \<lparr>Body = topic_payload ''b'', BeforeSend = None, AfterSend = Some after_ok\<rparr>,
      \<lparr>Body = topic_payload ''c'', BeforeSend = Some before_ok, AfterSend = Some after_ok\<rparr>]"

definition poisoned_requests :: "(string, nat) driver_Message list" where
  "poisoned_requests =
     [\<lparr>Body = topic_payload ''a'', BeforeSend = Some before_ok, AfterSend = None\<rparr>,
      \<lparr>Body = ''bad'', BeforeSend = None, AfterSend = None\<rparr>]"


section \<open>The error classification\<close>

text \<open>
  C1. The claim maps a non-nil error to "unknown" and the nil error to "ok". The
  function does the opposite: a non-nil error is classified \<open>OK\<close> and the nil error
  \<open>Unknown\<close>.
\<close>

theorem ErrorCode_inverted:
  "ErrorCode (Some ''unavailable'') = OK \<and> ErrorCode None = Unknown"
  by (simp add: ErrorCode_def)


section \<open>Sample runs\<close>

lemmas SendBatch_defs = SendBatch_def SendBatch_body_def handle_response_def send_entries_def
  count_failures_def call_AfterSend_def

lemmas sample_defs = sample_topic_def sample_options_def sample_unmarshal_def topic_payload_def
  sample_clock_def
  before_ok_def after_ok_def sent_ok_def sent_failed_def replying_client_def failing_client_def
  all_sent_def partly_sent_def one_request_def three_requests_def poisoned_requests_def

lemma run_partly_sent:
  "SendBatch sample_unmarshal sample_clock (sample_topic (replying_client partly_sent))
     three_requests 0 =
   (Return None,
    \<lparr>world = 9,
     trace =
       [BeforeSendCall 0 None, BeforeSendCall 2 None,
        SendAllCall [''a-seen'', ''b'', ''c-seen''] (Inr partly_sent),
        Count ''firebase.message.sendBatch.failure'' 1 [''env:test''],
        AfterSendCall 0 None,
        LoggerError ''Error from response entity'' ''pubsub.firebase.sendBatch.resposneEntity''
          ''unregistered'' (Some (''b'', sent_failed)),
        AfterSendCall 2 None,
        Timing ''firebase.messagine.sendBatch.latency'' 9 [''env:test'']]\<rparr>)"
  by (simp add: SendBatch_defs sample_defs)

lemma run_failing:
  "SendBatch sample_unmarshal sample_clock (sample_topic failing_client) three_requests 0 =
   (Return (Some ''unavailable''),
    \<lparr>world = 7,
     trace =
       [BeforeSendCall 0 None, BeforeSendCall 2 None,
        SendAllCall [''a-seen'', ''b'', ''c-seen''] (Inl ''unavailable''),
        LoggerError ''Error from response entity'' ''pubsub.firebase.sendBatch.response''
          ''unavailable'' None,
        Timing ''firebase.messagine.sendBatch.latency'' 7 [''env:test'']]\<rparr>)"
  by (simp add: SendBatch_defs sample_defs)

lemma run_all_sent:
  "SendBatch sample_unmarshal sample_clock (sample_topic (replying_client all_sent))
     one_request 0 =
   (Return None,
    \<lparr>world = 7,
     trace =
       [SendAllCall [''a''] (Inr all_sent),
        AfterSendCall 0 None, AfterSendCall 0 None,
        Timing ''firebase.messagine.sendBatch.latency'' 7 [''env:test'']]\<rparr>)"
  by (simp add: SendBatch_defs sample_defs)


lemma sample_topic_opts [simp]:
  "MetricService (opts (sample_topic cl)) = Some MetricSink"
  "Logger (opts (sample_topic cl)) = Some ZapLogger"
  "Tags (opts (sample_topic cl)) = [''env:test'']"
  "DryRun (opts (sample_topic cl)) = False"
  by (simp_all add: sample_topic_def sample_options_def)

section \<open>Traces only grow\<close>

lemma emits_refl: "emits P s s"
  by (simp add: emits_def)

lemma emits_trans: "emits P s s' \<Longrightarrow> emits P s' s'' \<Longrightarrow> emits P s s''"
  unfolding emits_def by auto

lemma emits_mono: "emits P s s' \<Longrightarrow> (\<And>e. P e \<Longrightarrow> Q e) \<Longrightarrow> emits Q s s'"
  unfolding emits_def by auto

lemma emits_one: "P e \<Longrightarrow> trace s' = trace s @ [e] \<Longrightarrow> emits P s s'"
  unfolding emits_def by auto

lemma emits_filter_none:
  "emits P s s' \<Longrightarrow> (\<And>e. P e \<Longrightarrow> \<not> Q e) \<Longrightarrow> filter Q (trace s') = filter Q (trace s)"
  unfolding emits_def by auto

lemma decode_loop_emits:
  "decode_loop unm n dms es s = (r, s') \<Longrightarrow> emits is_BeforeSendCall s s'"
proof (induction unm n dms es s rule: decode_loop.induct)
  case (1 unm n entries s)
  then show ?case by (simp add: emits_refl)
next
  case (2 unm n dm dms entries s)
  show ?case
  proof (cases "unm (Body dm)")
    case (Inl err)
    with 2(3) show ?thesis by (simp add: emits_refl)
  next
    case (Inr entry)
    show ?thesis
    proof (cases "BeforeSend dm")
      case None
      with 2(1)[OF Inr None] 2(3) Inr show ?thesis by simp
    next
      case (Some hook)
      obtain x entry' w' where h: "hook entry (world s) = (x, entry', w')"
        by (cases "hook entry (world s)") auto
      let ?s1 = "\<lparr>world = w', trace = trace s @ [BeforeSendCall n x]\<rparr>"
      have e1: "emits is_BeforeSendCall s ?s1"
        by (rule emits_one[where e = "BeforeSendCall n x"]) simp_all
      show ?thesis
      proof (cases x)
        case None
        have "decode_loop unm (Suc n) dms (entries @ [entry']) ?s1 = (r, s')"
          using 2(3) Inr Some h None by simp
        from 2(2)[OF Inr Some h[symmetric] refl None this] e1 show ?thesis
          by (rule emits_trans[rotated])
      next
        case (Some err)
        with 2(3) Inr \<open>BeforeSend dm = Some hook\<close> h e1 show ?thesis by simp
      qed
    qed
  qed
qed

lemma call_AfterSend_emits:
  "call_AfterSend n dm rs s = (r, s') \<Longrightarrow> emits is_AfterSendCall s s'"
  unfolding call_AfterSend_def emits_def
  by (auto split: option.splits if_splits prod.splits)

lemma response_loop_emits:
  "response_loop lg entries n dms rs s = (r, s') \<Longrightarrow>
   emits (\<lambda>e. is_AfterSendCall e \<or> is_LoggerError e) s s'"
proof (induction dms arbitrary: n rs s)
  case Nil
  then show ?case by (simp add: emits_refl)
next
  case (Cons dm dms)
  show ?case
  proof (cases "length rs \<le> n")
    case True
    with Cons.prems show ?thesis by (simp add: emits_refl)
  next
    case False
    obtain x s1 where c: "(if Success (rs ! n) then call_AfterSend n dm rs s else (Next rs, s)) = (x, s1)"
      by (cases "(if Success (rs ! n) then call_AfterSend n dm rs s else (Next rs, s))") auto
    have e1: "emits (\<lambda>e. is_AfterSendCall e \<or> is_LoggerError e) s s1"
      using c by (auto split: if_splits intro: emits_refl emits_mono[OF call_AfterSend_emits])
    show ?thesis
    proof (cases x)
      case (Stop out)
      with Cons.prems False c e1 show ?thesis by simp
    next
      case (Next rs')
      show ?thesis
      proof (cases "Error (rs' ! n)")
        case None
        with Cons.prems False c Next have "response_loop lg entries (Suc n) dms rs' s1 = (r, s')"
          by simp
        from emits_trans[OF e1 Cons.IH[OF this]] show ?thesis .
      next
        case (Some e)
        show ?thesis
        proof (cases "length entries \<le> n \<or> lg = None")
          case True
          with Cons.prems False c Next Some e1 show ?thesis by (auto split: option.splits)
        next
          case F2: False
          then obtain l where l: "lg = Some l" by auto
          let ?s2 = "s1\<lparr>trace := trace s1 @ [LoggerError ''Error from response entity''
                  ''pubsub.firebase.sendBatch.resposneEntity'' e (Some (entries ! n, rs' ! n))]\<rparr>"
          have e2: "emits (\<lambda>e. is_AfterSendCall e \<or> is_LoggerError e) s1 ?s2"
            by (rule emits_one[where e = "LoggerError ''Error from response entity''
                  ''pubsub.firebase.sendBatch.resposneEntity'' e (Some (entries ! n, rs' ! n))"]) simp_all
          have "response_loop lg entries (Suc n) dms rs' ?s2 = (r, s')"
            using Cons.prems False c Next Some F2 l by simp
          from emits_trans[OF emits_trans[OF e1 e2] Cons.IH[OF this]] show ?thesis .
        qed
      qed
    qed
  qed
qed

lemma all_success_loop_emits:
  "all_success_loop n dms rs s = (r, s') \<Longrightarrow> emits is_AfterSendCall s s'"
proof (induction dms arbitrary: n rs s)
  case Nil
  then show ?case by (simp add: emits_refl)
next
  case (Cons dm dms)
  obtain x s1 where c: "call_AfterSend n dm rs s = (x, s1)"
    by (cases "call_AfterSend n dm rs s") auto
  note e1 = call_AfterSend_emits[OF c]
  show ?case
  proof (cases x)
    case (Stop out)
    with Cons.prems c e1 show ?thesis by simp
  next
    case (Next rs')
    with Cons.prems c have "all_success_loop (Suc n) dms rs' s1 = (r, s')" by simp
    from emits_trans[OF e1 Cons.IH[OF this]] show ?thesis .
  qed
qed

lemma count_failures_emits:
  "count_failures t resp s = (r, s') \<Longrightarrow> emits is_Count s s'"
  unfolding count_failures_def emits_def
  by (auto split: option.splits if_splits)

lemma send_entries_trace:
  "send_entries t entries s = (r, s') \<Longrightarrow>
   trace s' = trace s @ [if DryRun (opts t) then SendAllDryRunCall entries r else SendAllCall entries r]"
  unfolding send_entries_def by (auto split: if_splits prod.splits)

lemma handle_response_emits:
  assumes "handle_response t dms entries resp s = (out, s')"
  shows "emits (\<lambda>e. is_Count e \<or> is_AfterSendCall e \<or> is_LoggerError e) s s'"
proof -
  let ?P = "\<lambda>e::'a event. is_Count e \<or> is_AfterSendCall e \<or> is_LoggerError e"
  obtain x s1 where c1: "count_failures t resp s = (x, s1)"
    by (cases "count_failures t resp s") auto
  have e1: "emits ?P s s1" by (rule emits_mono[OF count_failures_emits[OF c1]]) simp
  show ?thesis
  proof (cases x)
    case (Stop o1)
    with assms c1 e1 show ?thesis by (simp add: handle_response_def)
  next
    case (Next u)
    obtain y s2 where c2: "response_loop (Logger (opts t)) entries 0 dms (Responses resp) s1 = (y, s2)"
      by (cases "response_loop (Logger (opts t)) entries 0 dms (Responses resp) s1") auto
    have e2: "emits ?P s1 s2" by (rule emits_mono[OF response_loop_emits[OF c2]]) auto
    show ?thesis
    proof (cases y)
      case (Stop o2)
      with assms c1 Next c2 emits_trans[OF e1 e2] show ?thesis by (simp add: handle_response_def)
    next
      case N2: (Next rs)
      show ?thesis
      proof (cases "SuccessCount resp = int (length dms)")
        case False
        with assms c1 Next c2 N2 emits_trans[OF e1 e2] show ?thesis by (simp add: handle_response_def)
      next
        case True
        obtain z s3 where c3: "all_success_loop 0 dms rs s2 = (z, s3)"
          by (cases "all_success_loop 0 dms rs s2") auto
        have e3: "emits ?P s2 s3" by (rule emits_mono[OF all_success_loop_emits[OF c3]]) auto
        have "s' = s3" using assms c1 Next c2 N2 True c3 by (cases z) (simp_all add: handle_response_def)
        with emits_trans[OF emits_trans[OF e1 e2] e3] show ?thesis by simp
      qed
    qed
  qed
qed

section \<open>The structure of a call\<close>

lemma backend_replies_append [simp]:
  "backend_replies (xs @ ys) = backend_replies xs @ backend_replies ys"
  by (simp add: backend_replies_def)

lemma backend_replies_none:
  "(\<And>e. e \<in> set evs \<Longrightarrow> \<not> is_SendAllCall e \<and> \<not> is_SendAllDryRunCall e) \<Longrightarrow> backend_replies evs = []"
proof (induction evs)
  case Nil
  then show ?case by (simp add: backend_replies_def)
next
  case (Cons e evs)
  from Cons.prems[of e] have "reply_of e = []" by (cases e) auto
  moreover from Cons have "backend_replies evs = []" by auto
  ultimately show ?case by (simp add: backend_replies_def)
qed

lemma SendBatch_body_cases:
  assumes "SendBatch_body unm t dms s = (out, s')"
  obtains
    (decode_stop) "decode_loop unm 0 dms [] s = (Stop out, s')"
  | (transport) entries s1 err s2 where
      "decode_loop unm 0 dms [] s = (Next entries, s1)"
      "send_entries t entries s1 = (Inl err, s2)"
      "Logger (opts t) = None" "out = Panic" "s' = s2"
  | (logged) entries s1 err s2 l where
      "decode_loop unm 0 dms [] s = (Next entries, s1)"
      "send_entries t entries s1 = (Inl err, s2)"
      "Logger (opts t) = Some l" "out = Return (Some err)"
      "s' = s2\<lparr>trace := trace s2 @ [LoggerError ''Error from response entity''
                            ''pubsub.firebase.sendBatch.response'' err None]\<rparr>"
  | (response) entries s1 resp s2 where
      "decode_loop unm 0 dms [] s = (Next entries, s1)"
      "send_entries t entries s1 = (Inr resp, s2)"
      "handle_response t dms entries resp s2 = (out, s')"
proof -
  obtain r s1 where d: "decode_loop unm 0 dms [] s = (r, s1)"
    by (cases "decode_loop unm 0 dms [] s") auto
  show thesis
  proof (cases r)
    case (Stop o1)
    with assms d have "decode_loop unm 0 dms [] s = (Stop out, s')"
      by (simp add: SendBatch_body_def)
    then show thesis by (rule decode_stop)
  next
    case (Next entries)
    obtain rep s2 where b: "send_entries t entries s1 = (rep, s2)"
      by (cases "send_entries t entries s1") auto
    show thesis
    proof (cases rep)
      case (Inr resp)
      with assms d Next b have "handle_response t dms entries resp s2 = (out, s')"
        by (simp add: SendBatch_body_def)
      with d Next b Inr show thesis by (auto intro: response)
    next
      case (Inl err)
      show thesis
      proof (cases "Logger (opts t)")
        case None
        with assms d Next b Inl have "out = Panic" "s' = s2"
          by (simp_all add: SendBatch_body_def)
        with d Next b Inl None show thesis by (auto intro: transport)
      next
        case (Some l)
        with assms d Next b Inl have "out = Return (Some err)"
          "s' = s2\<lparr>trace := trace s2 @ [LoggerError ''Error from response entity''
                            ''pubsub.firebase.sendBatch.response'' err None]\<rparr>"
          by (simp_all add: SendBatch_body_def)
        with d Next b Inl Some show thesis by (auto intro: logged)
      qed
    qed
  qed
qed

lemma emits_backend_replies:
  assumes "emits P s s'" and "\<And>e. P e \<Longrightarrow> \<not> is_SendAllCall e \<and> \<not> is_SendAllDryRunCall e"
  shows "backend_replies (trace s') = backend_replies (trace s)"
proof -
  from assms(1) obtain evs where evs: "trace s' = trace s @ evs" "\<forall>e \<in> set evs. P e"
    unfolding emits_def by auto
  from evs(2) assms(2) have "backend_replies evs = []"
    by (intro backend_replies_none) auto
  with evs(1) show ?thesis by simp
qed

lemma SendBatch_trace:
  assumes "SendBatch_body unm t dms \<lparr>world = w, trace = []\<rparr> = (out, s)"
  shows "trace (snd (SendBatch unm now t dms w)) =
     trace s @ (case MetricService (opts t) of None \<Rightarrow> []
        | Some ms \<Rightarrow> [Timing ''firebase.messagine.sendBatch.latency'' (now (world s) - now w) (Tags (opts t))])"
    and "world (snd (SendBatch unm now t dms w)) = world s"
    and "fst (SendBatch unm now t dms w) = (case MetricService (opts t) of None \<Rightarrow> Panic | Some ms \<Rightarrow> out)"
  using assms by (simp_all add: SendBatch_def split: option.splits)

lemma backend_replies_Timing [simp]:
  "backend_replies (case x of None \<Rightarrow> [] | Some (ms::countMetricInterface) \<Rightarrow> [Timing a b c]) = []"
  by (simp add: backend_replies_def split: option.splits)

lemma backend_replies_SendBatch:
  "backend_replies (trace (snd (SendBatch unm now t dms w))) =
     (case decode_loop unm 0 dms [] \<lparr>world = w, trace = []\<rparr> of
        (Stop out, s1) \<Rightarrow> []
      | (Next entries, s1) \<Rightarrow> [fst (send_entries t entries s1)])"
proof -
  let ?s0 = "\<lparr>world = w, trace = []\<rparr> :: ('a, 'b) state"
  obtain out s where body: "SendBatch_body unm t dms ?s0 = (out, s)"
    by (cases "SendBatch_body unm t dms ?s0") auto
  have tr: "backend_replies (trace (snd (SendBatch unm now t dms w))) = backend_replies (trace s)"
    by (simp add: SendBatch_trace(1)[OF body])
  have dec: "backend_replies (trace s1) = []" if "decode_loop unm 0 dms [] ?s0 = (r, s1)" for r s1
  proof -
    have "backend_replies (trace s1) = backend_replies (trace ?s0)"
      by (rule emits_backend_replies[OF decode_loop_emits[OF that]]) auto
    then show ?thesis by (simp add: backend_replies_def)
  qed
  from body show ?thesis
  proof (cases rule: SendBatch_body_cases)
    case decode_stop
    with dec[OF decode_stop] tr show ?thesis by simp
  next
    case (transport entries s1 err s2)
    with dec[OF transport(1)] tr send_entries_trace[OF transport(2)] show ?thesis
      by (simp add: backend_replies_def)
  next
    case (logged entries s1 err s2 l)
    with dec[OF logged(1)] tr send_entries_trace[OF logged(2)] show ?thesis
      by (simp add: backend_replies_def)
  next
    case (response entries s1 resp s2)
    have "backend_replies (trace s) = backend_replies (trace s2)"
      by (rule emits_backend_replies[OF handle_response_emits[OF response(3)]]) auto
    with dec[OF response(1)] tr send_entries_trace[OF response(2)] response(1,2) show ?thesis
      by (simp add: backend_replies_def)
  qed
qed

lemma replied_response:
  assumes "Inr resp \<in> set (backend_replies (trace (snd (SendBatch unm now t dms w))))"
  obtains entries s1 s2 where
    "decode_loop unm 0 dms [] \<lparr>world = w, trace = []\<rparr> = (Next entries, s1)"
    "send_entries t entries s1 = (Inr resp, s2)"
    "SendBatch_body unm t dms \<lparr>world = w, trace = []\<rparr> = handle_response t dms entries resp s2"
proof -
  let ?s0 = "\<lparr>world = w, trace = []\<rparr> :: ('a, 'b) state"
  obtain r s1 where d: "decode_loop unm 0 dms [] ?s0 = (r, s1)"
    by (cases "decode_loop unm 0 dms [] ?s0") auto
  from assms d obtain entries where r: "r = Next entries" and f: "fst (send_entries t entries s1) = Inr resp"
    by (cases r) (auto simp: backend_replies_SendBatch)
  then obtain s2 where b: "send_entries t entries s1 = (Inr resp, s2)"
    by (cases "send_entries t entries s1") auto
  have "SendBatch_body unm t dms ?s0 = handle_response t dms entries resp s2"
    using d r b by (simp add: SendBatch_body_def)
  with d r b show thesis by (auto intro: that)
qed

lemma replied_error:
  assumes "Inl err \<in> set (backend_replies (trace (snd (SendBatch unm now t dms w))))"
  obtains entries s1 s2 where
    "decode_loop unm 0 dms [] \<lparr>world = w, trace = []\<rparr> = (Next entries, s1)"
    "send_entries t entries s1 = (Inl err, s2)"
    "SendBatch_body unm t dms \<lparr>world = w, trace = []\<rparr> =
       (case Logger (opts t) of
          None \<Rightarrow> (Panic, s2)
        | Some l \<Rightarrow> (Return (Some err),
             s2\<lparr>trace := trace s2 @ [LoggerError ''Error from response entity''
                            ''pubsub.firebase.sendBatch.response'' err None]\<rparr>))"
proof -
  let ?s0 = "\<lparr>world = w, trace = []\<rparr> :: ('a, 'b) state"
  obtain r s1 where d: "decode_loop unm 0 dms [] ?s0 = (r, s1)"
    by (cases "decode_loop unm 0 dms [] ?s0") auto
  from assms d obtain entries where r: "r = Next entries" and f: "fst (send_entries t entries s1) = Inl err"
    by (cases r) (auto simp: backend_replies_SendBatch)
  then obtain s2 where b: "send_entries t entries s1 = (Inl err, s2)"
    by (cases "send_entries t entries s1") auto
  show thesis
    by (rule that[OF d[unfolded r] b]) (use d r b in \<open>simp add: SendBatch_body_def\<close>)
qed

lemma send_entries_emits:
  "send_entries t entries s = (r, s') \<Longrightarrow> emits (\<lambda>e. is_SendAllCall e \<or> is_SendAllDryRunCall e) s s'"
  by (rule emits_one[OF _ send_entries_trace]) auto

lemma send_entries_emits_mode:
  "send_entries t entries s = (r, s') \<Longrightarrow>
   emits (\<lambda>e. if DryRun (opts t) then is_SendAllDryRunCall e else is_SendAllCall e) s s'"
  by (rule emits_one[OF _ send_entries_trace]) auto

lemma SendBatch_body_emits_mode:
  assumes "SendBatch_body unm t dms s = (out, s')"
  shows "emits (\<lambda>e. is_BeforeSendCall e \<or> is_Count e \<or> is_AfterSendCall e \<or> is_LoggerError e \<or>
                  (if DryRun (opts t) then is_SendAllDryRunCall e else is_SendAllCall e)) s s'"
    (is "emits ?P s s'")
  using assms
proof (cases rule: SendBatch_body_cases)
  case decode_stop
  show ?thesis by (rule emits_mono[OF decode_loop_emits[OF decode_stop]]) auto
next
  case (transport entries s1 err s2)
  have "emits ?P s s1"
    by (rule emits_mono[OF decode_loop_emits[OF transport(1)]]) auto
  moreover have "emits ?P s1 s2"
    by (rule emits_mono[OF send_entries_emits_mode[OF transport(2)]]) auto
  ultimately have "emits ?P s s2" by (rule emits_trans)
  then show ?thesis unfolding transport(5) .
next
  case (logged entries s1 err s2 l)
  have "emits ?P s s1"
    by (rule emits_mono[OF decode_loop_emits[OF logged(1)]]) auto
  moreover have "emits ?P s1 s2"
    by (rule emits_mono[OF send_entries_emits_mode[OF logged(2)]]) auto
  moreover have "emits ?P s2 s'"
    unfolding logged(5) by (rule emits_one[where e = "LoggerError ''Error from response entity''
                            ''pubsub.firebase.sendBatch.response'' err None"]) simp_all
  ultimately show ?thesis by (meson emits_trans)
next
  case (response entries s1 resp s2)
  have "emits ?P s s1"
    by (rule emits_mono[OF decode_loop_emits[OF response(1)]]) auto
  moreover have "emits ?P s1 s2"
    by (rule emits_mono[OF send_entries_emits_mode[OF response(2)]]) auto
  moreover have "emits ?P s2 s'"
    by (rule emits_mono[OF handle_response_emits[OF response(3)]]) auto
  ultimately show ?thesis by (meson emits_trans)
qed

section \<open>The latency metric\<close>

text \<open>
  C8. On a topic with a metrics sink, every call of \<^verbatim>\<open>SendBatch\<close>, whatever its outcome
  (a decode error, a hook error, a transport error, a panic in the body, or success),
  emits exactly one \<open>Timing\<close> event. It is the last event of the call, and its duration is
  the clock at exit minus the clock at entry, so that it covers decoding, hooks and the
  backend call.
\<close>

theorem latency_emitted_once:
  assumes "MetricService (opts t) = Some ms"
  shows "filter is_Timing (trace (snd (SendBatch unm now t dms w))) =
           [Timing ''firebase.messagine.sendBatch.latency''
              (now (world (snd (SendBatch unm now t dms w))) - now w) (Tags (opts t))]
         \<and> last (trace (snd (SendBatch unm now t dms w))) =
           Timing ''firebase.messagine.sendBatch.latency''
              (now (world (snd (SendBatch unm now t dms w))) - now w) (Tags (opts t))"
proof -
  let ?s0 = "\<lparr>world = w, trace = []\<rparr> :: ('a, 'b) state"
  obtain out s where body: "SendBatch_body unm t dms ?s0 = (out, s)"
    by (cases "SendBatch_body unm t dms ?s0") auto
  have "filter is_Timing (trace s) = filter is_Timing (trace ?s0)"
    by (rule emits_filter_none[OF SendBatch_body_emits_mode[OF body]]) (auto split: if_splits)
  then have "filter is_Timing (trace s) = []" by simp
  with SendBatch_trace(1,2)[OF body, of now] assms show ?thesis by simp
qed

theorem latency_emitted_once_witness:
  "MetricService (opts (sample_topic failing_client)) = Some MetricSink
   \<and> fst (SendBatch sample_unmarshal sample_clock (sample_topic failing_client) three_requests 0)
       = Return (Some ''unavailable'')
   \<and> filter is_Timing
         (trace (snd (SendBatch sample_unmarshal sample_clock (sample_topic failing_client)
            three_requests 0))) =
       [Timing ''firebase.messagine.sendBatch.latency'' 7 [''env:test'']]"
proof -
  have h: "MetricService (opts (sample_topic failing_client)) = Some MetricSink" by simp
  from latency_emitted_once[OF h, of sample_unmarshal sample_clock three_requests 0] h
  show ?thesis by (simp add: run_failing sample_clock_def)
qed

section \<open>The failure counter\<close>

lemma handle_response_Count:
  assumes "handle_response t dms entries resp s = (out, s')"
    and "MetricService (opts t) = Some ms"
  shows "filter is_Count (trace s') = filter is_Count (trace s) @
           (if 0 < FailureCount resp
            then [Count ''firebase.message.sendBatch.failure'' (FailureCount resp) (Tags (opts t))]
            else [])"
proof -
  let ?c = "if 0 < FailureCount resp
            then [Count ''firebase.message.sendBatch.failure'' (FailureCount resp) (Tags (opts t))]
            else []"
  let ?s1 = "s\<lparr>trace := trace s @ ?c\<rparr>"
  have c1: "count_failures t resp s = (Next (), ?s1)"
    using assms(2) by (simp add: count_failures_def)
  obtain y s2 where c2: "response_loop (Logger (opts t)) entries 0 dms (Responses resp) ?s1 = (y, s2)"
    by (cases "response_loop (Logger (opts t)) entries 0 dms (Responses resp) ?s1") auto
  have f2: "filter is_Count (trace s2) = filter is_Count (trace ?s1)"
    by (rule emits_filter_none[OF response_loop_emits[OF c2]]) auto
  have "filter is_Count (trace s') = filter is_Count (trace s2)"
  proof (cases y)
    case (Stop o2)
    with assms(1) c1 c2 show ?thesis by (simp add: handle_response_def)
  next
    case (Next rs)
    show ?thesis
    proof (cases "SuccessCount resp = int (length dms)")
      case False
      with assms(1) c1 c2 Next show ?thesis by (simp add: handle_response_def)
    next
      case True
      obtain z s3 where c3: "all_success_loop 0 dms rs s2 = (z, s3)"
        by (cases "all_success_loop 0 dms rs s2") auto
      have "s' = s3" using assms(1) c1 c2 Next True c3
        by (cases z) (simp_all add: handle_response_def)
      moreover have "filter is_Count (trace s3) = filter is_Count (trace s2)"
        by (rule emits_filter_none[OF all_success_loop_emits[OF c3]]) auto
      ultimately show ?thesis by simp
    qed
  qed
  with f2 show ?thesis by simp
qed

text \<open>
  C5. On a topic with a metrics sink, when the backend call of a \<^verbatim>\<open>SendBatch\<close> call
  returned a response \<open>resp\<close> (no transport error), the call emits a failure-count metric
  if and only if \<open>FailureCount resp\<close> is positive, and then exactly one, named
  \<^verbatim>\<open>firebase.message.sendBatch.failure\<close>, whose value is \<open>FailureCount resp\<close> and whose
  tags are the configured ones. The value is the count the backend reported, whatever the
  number of entries logged.
\<close>

theorem failure_count_metric:
  assumes "MetricService (opts t) = Some ms"
    and "Inr resp \<in> set (backend_replies (trace (snd (SendBatch unm now t dms w))))"
  shows "filter is_Count (trace (snd (SendBatch unm now t dms w))) =
           (if 0 < FailureCount resp
            then [Count ''firebase.message.sendBatch.failure'' (FailureCount resp) (Tags (opts t))]
            else [])"
proof -
  let ?s0 = "\<lparr>world = w, trace = []\<rparr> :: ('a, 'b) state"
  from assms(2) obtain entries s1 s2 where
    d: "decode_loop unm 0 dms [] ?s0 = (Next entries, s1)" and
    b: "send_entries t entries s1 = (Inr resp, s2)" and
    body: "SendBatch_body unm t dms ?s0 = handle_response t dms entries resp s2"
    by (rule replied_response)
  obtain out s where h: "handle_response t dms entries resp s2 = (out, s)"
    by (cases "handle_response t dms entries resp s2") auto
  have "filter is_Count (trace s1) = filter is_Count (trace ?s0)"
    by (rule emits_filter_none[OF decode_loop_emits[OF d]]) auto
  moreover have "filter is_Count (trace s2) = filter is_Count (trace s1)"
    by (rule emits_filter_none[OF send_entries_emits[OF b]]) auto
  ultimately have "filter is_Count (trace s2) = []" by simp
  with handle_response_Count[OF h assms(1)]
  have "filter is_Count (trace s) =
           (if 0 < FailureCount resp
            then [Count ''firebase.message.sendBatch.failure'' (FailureCount resp) (Tags (opts t))]
            else [])" by simp
  with SendBatch_trace(1)[OF body[unfolded h], of now] assms(1) show ?thesis by simp
qed

theorem failure_count_metric_witness:
  "Inr partly_sent \<in> set (backend_replies (trace (snd (SendBatch sample_unmarshal sample_clock
       (sample_topic (replying_client partly_sent)) three_requests 0))))
   \<and> filter is_Count (trace (snd (SendBatch sample_unmarshal sample_clock
       (sample_topic (replying_client partly_sent)) three_requests 0))) =
       [Count ''firebase.message.sendBatch.failure'' 1 [''env:test'']]
   \<and> length (filter is_LoggerError (trace (snd (SendBatch sample_unmarshal sample_clock
       (sample_topic (replying_client partly_sent)) three_requests 0)))) = 1"
proof -
  have h1: "MetricService (opts (sample_topic (replying_client partly_sent))) = Some MetricSink"
    by simp
  have h2: "Inr partly_sent \<in> set (backend_replies (trace (snd (SendBatch sample_unmarshal
       sample_clock (sample_topic (replying_client partly_sent)) three_requests 0))))"
    by (simp add: run_partly_sent backend_replies_def)
  from failure_count_metric[OF h1 h2]
  have c: "filter is_Count (trace (snd (SendBatch sample_unmarshal sample_clock
       (sample_topic (replying_client partly_sent)) three_requests 0))) =
       [Count ''firebase.message.sendBatch.failure'' 1 [''env:test'']]"
    by (simp add: partly_sent_def)
  have g: "length (filter is_LoggerError (trace (snd (SendBatch sample_unmarshal sample_clock
       (sample_topic (replying_client partly_sent)) three_requests 0)))) = 1"
    by (simp add: run_partly_sent)
  from h2 c g show ?thesis by blast
qed

section \<open>A transport error\<close>

text \<open>
  C6. On a topic with a metrics sink and a logger, when the backend call of a
  \<^verbatim>\<open>SendBatch\<close> call returned the call-level error \<open>err\<close>, the call returns \<open>err\<close>, logs
  it once with \<^verbatim>\<open>Logger.Error\<close> (and logs nothing else), invokes no after-send hook and
  emits no failure-count metric.
\<close>

theorem transport_error:
  assumes "MetricService (opts t) = Some ms"
    and "Logger (opts t) = Some l"
    and "Inl err \<in> set (backend_replies (trace (snd (SendBatch unm now t dms w))))"
  shows "fst (SendBatch unm now t dms w) = Return (Some err)
       \<and> filter is_LoggerError (trace (snd (SendBatch unm now t dms w))) =
           [LoggerError ''Error from response entity'' ''pubsub.firebase.sendBatch.response'' err None]
       \<and> filter is_AfterSendCall (trace (snd (SendBatch unm now t dms w))) = []
       \<and> filter is_Count (trace (snd (SendBatch unm now t dms w))) = []"
proof -
  let ?s0 = "\<lparr>world = w, trace = []\<rparr> :: ('a, 'b) state"
  let ?log = "LoggerError ''Error from response entity'' ''pubsub.firebase.sendBatch.response'' err None :: 'a event"
  from assms(3) obtain entries s1 s2 where
    d: "decode_loop unm 0 dms [] ?s0 = (Next entries, s1)" and
    b: "send_entries t entries s1 = (Inl err, s2)" and
    body0: "SendBatch_body unm t dms ?s0 =
       (case Logger (opts t) of
          None \<Rightarrow> (Panic, s2)
        | Some l \<Rightarrow> (Return (Some err), s2\<lparr>trace := trace s2 @ [?log]\<rparr>))"
    by (rule replied_error)
  from body0 assms(2) have body: "SendBatch_body unm t dms ?s0 =
      (Return (Some err), s2\<lparr>trace := trace s2 @ [?log]\<rparr>)" by simp
  have e: "emits (\<lambda>e. is_BeforeSendCall e \<or> is_SendAllCall e \<or> is_SendAllDryRunCall e) ?s0 s2"
    by (rule emits_trans[OF emits_mono[OF decode_loop_emits[OF d]] emits_mono[OF send_entries_emits[OF b]]]) auto
  have "filter is_LoggerError (trace s2) = filter is_LoggerError (trace ?s0)"
    by (rule emits_filter_none[OF e]) auto
  moreover have "filter is_AfterSendCall (trace s2) = filter is_AfterSendCall (trace ?s0)"
    by (rule emits_filter_none[OF e]) auto
  moreover have "filter is_Count (trace s2) = filter is_Count (trace ?s0)"
    by (rule emits_filter_none[OF e]) auto
  ultimately show ?thesis
    using SendBatch_trace[OF body, of now] assms(1) by simp
qed

theorem transport_error_witness:
  "Inl ''unavailable'' \<in> set (backend_replies (trace (snd (SendBatch sample_unmarshal
       sample_clock (sample_topic failing_client) three_requests 0))))
   \<and> fst (SendBatch sample_unmarshal sample_clock (sample_topic failing_client) three_requests 0)
       = Return (Some ''unavailable'')
   \<and> filter is_AfterSendCall (trace (snd (SendBatch sample_unmarshal sample_clock
       (sample_topic failing_client) three_requests 0))) = []"
proof -
  have h1: "MetricService (opts (sample_topic failing_client)) = Some MetricSink" by simp
  have h2: "Logger (opts (sample_topic failing_client)) = Some ZapLogger" by simp
  have h3: "Inl ''unavailable'' \<in> set (backend_replies (trace (snd (SendBatch sample_unmarshal
       sample_clock (sample_topic failing_client) three_requests 0))))"
    by (simp add: run_failing backend_replies_def)
  from transport_error[OF h1 h2 h3] h3 show ?thesis by simp
qed

section \<open>The before-send hooks\<close>

lemma state_eta: "\<lparr>world = world s, trace = trace s\<rparr> = (s :: ('m, 'w) state)"
  by simp

lemma decode_loop_spec:
  assumes "map (\<lambda>dm. unm (Body dm)) pre = map Inr ms"
    and "before_hooks_spec n pre ms (world s) = (e, ms', w', evs)"
  shows "decode_loop unm n (pre @ rest) es s =
           (case e of
              None \<Rightarrow>
                decode_loop unm (n + length pre) rest (es @ ms')
                  \<lparr>world = w', trace = trace s @ evs\<rparr>
            | Some err \<Rightarrow> (Stop (Return (Some err)), \<lparr>world = w', trace = trace s @ evs\<rparr>))"
  using assms
proof (induction pre arbitrary: n ms es s e ms' w' evs)
  case Nil
  then have "e = None" "ms' = []" "w' = world s" "evs = []" by auto
  then show ?case by (simp add: state_eta)
next
  case (Cons dm pre)
  from Cons.prems(1) obtain m ms0 where ms: "ms = m # ms0" and m: "unm (Body dm) = Inr m"
    and ms0: "map (\<lambda>dm. unm (Body dm)) pre = map Inr ms0"
    by (cases ms) auto
  show ?case
  proof (cases "BeforeSend dm")
    case None
    obtain e1 ms1 w1 evs1 where r: "before_hooks_spec (Suc n) pre ms0 (world s) = (e1, ms1, w1, evs1)"
      by (cases "before_hooks_spec (Suc n) pre ms0 (world s)") auto
    with Cons.prems(2) ms None have eq: "e = e1" "ms' = m # ms1" "w' = w1" "evs = evs1"
      by simp_all
    from Cons.IH[OF ms0 r, of "es @ [m]"] m None eq show ?thesis
      by (simp split: option.splits)
  next
    case (Some hook)
    obtain x m' w1 where h: "hook m (world s) = (x, m', w1)"
      by (cases "hook m (world s)") auto
    let ?s1 = "\<lparr>world = w1, trace = trace s @ [BeforeSendCall n x]\<rparr> :: ('a, 'b) state"
    show ?thesis
    proof (cases x)
      case (Some err)
      with Cons.prems(2) ms \<open>BeforeSend dm = Some hook\<close> h
      have "e = Some err" "w' = w1" "evs = [BeforeSendCall n x]" by auto
      with m \<open>BeforeSend dm = Some hook\<close> h Some show ?thesis by simp
    next
      case None
      obtain e1 ms1 w2 evs1 where r: "before_hooks_spec (Suc n) pre ms0 w1 = (e1, ms1, w2, evs1)"
        by (cases "before_hooks_spec (Suc n) pre ms0 w1") auto
      with Cons.prems(2) ms Some h None
      have eq: "e = e1" "ms' = m' # ms1" "w' = w2" "evs = BeforeSendCall n x # evs1"
        by simp_all
      have "before_hooks_spec (Suc n) pre ms0 (world ?s1) = (e1, ms1, w2, evs1)"
        using r by simp
      from Cons.IH[OF ms0 this, of "es @ [m']"] m Some h None eq show ?thesis
        by (simp split: option.splits)
    qed
  qed
qed

lemma before_hooks_spec_events:
  assumes "before_hooks_spec n dms ms w = (None, ms', w', evs)"
    and "length ms = length dms"
  shows "evs = map (\<lambda>(i, dm). BeforeSendCall i None)
                 (filter (\<lambda>(i, dm). BeforeSend dm \<noteq> None) (enumerate n dms))
         \<and> length ms' = length dms"
  using assms
proof (induction dms arbitrary: n ms w ms' w' evs)
  case Nil
  then show ?case by simp
next
  case (Cons dm dms)
  from Cons.prems(2) obtain m ms0 where ms: "ms = m # ms0" and len: "length ms0 = length dms"
    by (cases ms) auto
  show ?case
  proof (cases "BeforeSend dm")
    case None
    obtain e ms1 w1 evs1 where r: "before_hooks_spec (Suc n) dms ms0 w = (e, ms1, w1, evs1)"
      by (cases "before_hooks_spec (Suc n) dms ms0 w") auto
    with Cons.prems(1) ms None have eq: "e = None" "ms' = m # ms1" "evs = evs1"
      by simp_all
    from Cons.IH[OF r[unfolded eq(1)] len] None eq show ?thesis by simp
  next
    case (Some hook)
    obtain x m' w1 where h: "hook m w = (x, m', w1)"
      by (cases "hook m w") auto
    obtain e ms1 w2 evs1 where r: "before_hooks_spec (Suc n) dms ms0 w1 = (e, ms1, w2, evs1)"
      by (cases "before_hooks_spec (Suc n) dms ms0 w1") auto
    from Cons.prems(1) ms Some h r have x: "x = None"
      by (cases x) simp_all
    with Cons.prems(1) ms Some h r
    have eq: "e = None" "ms' = m' # ms1" "evs = BeforeSendCall n None # evs1"
      by simp_all
    from Cons.IH[OF r[unfolded eq(1)] len] Some eq show ?thesis by simp
  qed
qed

lemma send_entries_reply:
  "fst (send_entries t entries s) =
     fst (if DryRun (opts t) then SendAllDryRun (client t) entries (world s)
          else SendAll (client t) entries (world s))"
  by (simp add: send_entries_def split: prod.splits)

lemma backend_calls_SendBatch:
  assumes "decode_loop unm 0 dms [] \<lparr>world = w, trace = []\<rparr> = (Next entries, s1)"
  shows "filter (\<lambda>e. is_SendAllCall e \<or> is_SendAllDryRunCall e)
           (trace (snd (SendBatch unm now t dms w))) =
         [if DryRun (opts t)
          then SendAllDryRunCall entries (fst (SendAllDryRun (client t) entries (world s1)))
          else SendAllCall entries (fst (SendAll (client t) entries (world s1)))]"
proof -
  let ?s0 = "\<lparr>world = w, trace = []\<rparr> :: ('a, 'b) state"
  let ?B = "\<lambda>e::'a event. is_SendAllCall e \<or> is_SendAllDryRunCall e"
  obtain r s2 where b: "send_entries t entries s1 = (r, s2)"
    by (cases "send_entries t entries s1") auto
  have r: "r = fst (if DryRun (opts t) then SendAllDryRun (client t) entries (world s1)
          else SendAll (client t) entries (world s1))"
    using send_entries_reply[of t entries s1] b by simp
  obtain out s where body: "SendBatch_body unm t dms ?s0 = (out, s)"
    by (cases "SendBatch_body unm t dms ?s0") auto
  have f1: "filter ?B (trace s1) = []"
    using emits_filter_none[OF decode_loop_emits[OF assms], of ?B] by auto
  have f2: "filter ?B (trace s2) =
      [if DryRun (opts t) then SendAllDryRunCall entries r else SendAllCall entries r]"
    using send_entries_trace[OF b] f1 by simp
  have "filter ?B (trace s) = filter ?B (trace s2)"
  proof (cases r)
    case (Inl err)
    with body assms b show ?thesis
      by (auto simp: SendBatch_body_def split: option.splits)
  next
    case (Inr resp)
    with body assms b have "handle_response t dms entries resp s2 = (out, s)"
      by (simp add: SendBatch_body_def)
    from emits_filter_none[OF handle_response_emits[OF this], of ?B] show ?thesis by auto
  qed
  with f2 r SendBatch_trace(1)[OF body, of now] show ?thesis
    by (simp split: option.splits)
qed

lemma SendBatch_decode_part:
  assumes "decode_loop unm 0 dms [] \<lparr>world = w, trace = []\<rparr> = (r, s1)"
  shows "\<exists>evs. trace (snd (SendBatch unm now t dms w)) = trace s1 @ evs \<and>
           (\<forall>e \<in> set evs. \<not> is_BeforeSendCall e) \<and> (\<forall>e \<in> set (trace s1). is_BeforeSendCall e)"
proof -
  let ?s0 = "\<lparr>world = w, trace = []\<rparr> :: ('a, 'b) state"
  let ?Q = "\<lambda>e::'a event. \<not> is_BeforeSendCall e"
  obtain out s where body: "SendBatch_body unm t dms ?s0 = (out, s)"
    by (cases "SendBatch_body unm t dms ?s0") auto
  have 1: "\<forall>e \<in> set (trace s1). is_BeforeSendCall e"
    using decode_loop_emits[OF assms] by (auto simp: emits_def)
  have "emits ?Q s1 s"
    using body
  proof (cases rule: SendBatch_body_cases)
    case decode_stop
    with assms show ?thesis by (simp add: emits_refl)
  next
    case (transport entries s1' err s2)
    with assms have "emits ?Q s1 s2"
      by (auto intro: emits_mono[OF send_entries_emits])
    with transport(5) show ?thesis by simp
  next
    case (logged entries s1' err s2 l)
    with assms have "emits ?Q s1 s2"
      by (auto intro: emits_mono[OF send_entries_emits])
    moreover have "emits ?Q s2 s"
      unfolding logged(5) by (rule emits_one[where e = "LoggerError ''Error from response entity''
                            ''pubsub.firebase.sendBatch.response'' err None"]) simp_all
    ultimately show ?thesis by (rule emits_trans)
  next
    case (response entries s1' resp s2)
    with assms have "emits ?Q s1 s2"
      by (auto intro: emits_mono[OF send_entries_emits])
    moreover have "emits ?Q s2 s"
      by (rule emits_mono[OF handle_response_emits[OF response(3)]]) auto
    ultimately show ?thesis by (rule emits_trans)
  qed
  then obtain evs where evs: "trace s = trace s1 @ evs" "\<forall>e \<in> set evs. ?Q e"
    unfolding emits_def by auto
  let ?tm = "case MetricService (opts t) of None \<Rightarrow> []
        | Some ms \<Rightarrow> [Timing ''firebase.messagine.sendBatch.latency'' (now (world s) - now w) (Tags (opts t))]"
  have "trace (snd (SendBatch unm now t dms w)) = trace s1 @ (evs @ ?tm)"
    using SendBatch_trace(1)[OF body, of now] evs(1) by simp
  moreover have "\<forall>e \<in> set (evs @ ?tm). ?Q e"
    using evs(2) by (auto split: option.splits)
  ultimately show ?thesis using 1 by blast
qed

lemma length_filter_enumerate:
  "length (filter (\<lambda>(i, dm). P dm) (enumerate n dms)) = length (filter P dms)"
  by (induction dms arbitrary: n) auto

lemma count_enumerate:
  "length (filter (\<lambda>(k, dm). k = i \<and> Q k dm) (enumerate n dms)) =
     (if n \<le> i \<and> i < n + length dms \<and> Q i (dms ! (i - n)) then 1 else 0)"
proof (induction dms arbitrary: n)
  case Nil
  then show ?case by simp
next
  case (Cons dm dms)
  show ?case
  proof (cases "i = n")
    case True
    then show ?thesis using Cons.IH[of "Suc n"] by simp
  next
    case False
    have "(dm # dms) ! (i - n) = dms ! (i - Suc n)" if "n < i"
      using that by (simp add: nth_Cons')
    with False show ?thesis using Cons.IH[of "Suc n"] by auto
  qed
qed

lemma BeforeSend_calls_enumerate:
  "BeforeSend_calls i (map (\<lambda>(k, dm). BeforeSendCall k None)
       (filter (\<lambda>(k, dm). Q k dm) (enumerate n dms))) =
     (if n \<le> i \<and> i < n + length dms \<and> Q i (dms ! (i - n)) then 1 else 0)"
proof -
  have "(is_BeforeSend_of i \<circ> (\<lambda>(k, dm). BeforeSendCall k None)) = (\<lambda>(k, dm). k = i)"
    by (auto simp: fun_eq_iff)
  then have "BeforeSend_calls i (map (\<lambda>(k, dm). BeforeSendCall k None)
       (filter (\<lambda>(k, dm). Q k dm) (enumerate n dms))) =
       length (filter (\<lambda>(k, dm). k = i \<and> Q k dm) (enumerate n dms))"
    by (simp add: BeforeSend_calls_def filter_map case_prod_unfold conj_commute)
  then show ?thesis by (simp only: count_enumerate)
qed

lemma BeforeSend_calls_filter:
  "BeforeSend_calls i (filter is_BeforeSendCall tr) = BeforeSend_calls i tr"
proof -
  have "(is_BeforeSendCall e \<and> is_BeforeSend_of i e) = is_BeforeSend_of i e" for e :: "'a event"
    by (cases e) auto
  then show ?thesis by (simp add: BeforeSend_calls_def)
qed

text \<open>
  C7. Let every payload of the batch decode (to the messages \<open>ms\<close>), and let the
  before-send step of the specification give the hook error \<open>e\<close> (or none), the messages
  \<open>ms'\<close>, the outside state \<open>w'\<close> and the invocations \<open>evs\<close>. Then the before-send
  invocations of the call, with what the hooks returned, are \<open>evs\<close>. If no before-send
  hook returns an error (\<open>e\<close> is none), they are those of the requests that supply a
  hook, in batch order, as many as there are such requests, one per such request; and the
  hooks have taken effect: the one backend call of \<^verbatim>\<open>SendBatch\<close> submits the messages as
  the hooks left them, in the outside state they left. If a hook returns an error, no
  backend call occurs, and on a topic with a metrics sink the call returns that error.
\<close>

theorem before_hooks_in_order:
  assumes "map (\<lambda>dm. unm (Body dm)) dms = map Inr ms"
    and "before_hooks_spec 0 dms ms w = (e, ms', w', evs)"
  shows "filter is_BeforeSendCall (trace (snd (SendBatch unm now t dms w))) = evs
       \<and> (e = None \<longrightarrow>
            filter is_BeforeSendCall (trace (snd (SendBatch unm now t dms w))) =
              map (\<lambda>(i, dm). BeforeSendCall i None)
                (filter (\<lambda>(i, dm). BeforeSend dm \<noteq> None) (enumerate 0 dms))
          \<and> length (filter is_BeforeSendCall (trace (snd (SendBatch unm now t dms w)))) =
              length (filter (\<lambda>dm. BeforeSend dm \<noteq> None) dms)
          \<and> (\<forall>i < length dms. BeforeSend_calls i (trace (snd (SendBatch unm now t dms w))) =
                (if BeforeSend (dms ! i) \<noteq> None then 1 else 0))
          \<and> filter (\<lambda>e. is_SendAllCall e \<or> is_SendAllDryRunCall e)
              (trace (snd (SendBatch unm now t dms w))) =
              [if DryRun (opts t)
               then SendAllDryRunCall ms' (fst (SendAllDryRun (client t) ms' w'))
               else SendAllCall ms' (fst (SendAll (client t) ms' w'))])
       \<and> (e = Some err \<longrightarrow>
            backend_replies (trace (snd (SendBatch unm now t dms w))) = []
          \<and> (MetricService (opts t) = Some sink \<longrightarrow>
                fst (SendBatch unm now t dms w) = Return (Some err)))"
proof -
  let ?s0 = "\<lparr>world = w, trace = []\<rparr> :: ('a, 'b) state"
  let ?s1 = "\<lparr>world = w', trace = evs\<rparr> :: ('a, 'b) state"
  let ?tr = "trace (snd (SendBatch unm now t dms w))"
  let ?calls = "map (\<lambda>(i, dm). BeforeSendCall i None)
             (filter (\<lambda>(i, dm). BeforeSend dm \<noteq> None) (enumerate 0 dms)) :: 'a event list"
  have len: "length ms = length dms"
    using arg_cong[OF assms(1), of length] by simp
  have d: "decode_loop unm 0 dms [] ?s0 =
      (case e of None \<Rightarrow> Next ms' | Some err \<Rightarrow> Stop (Return (Some err)), ?s1)"
    using decode_loop_spec[OF assms(1), of 0 ?s0 e ms' w' evs "[]" "[]"] assms(2)
    by (simp split: option.splits)
  from SendBatch_decode_part[OF d, of now t] obtain rest where
    tr: "?tr = evs @ rest" and rest: "\<forall>e \<in> set rest. \<not> is_BeforeSendCall e"
    and s1: "\<forall>e \<in> set evs. is_BeforeSendCall e" by auto
  then have 1: "filter is_BeforeSendCall ?tr = evs" by simp
  have ok: "filter is_BeforeSendCall ?tr = ?calls
          \<and> length (filter is_BeforeSendCall ?tr) = length (filter (\<lambda>dm. BeforeSend dm \<noteq> None) dms)
          \<and> (\<forall>i < length dms. BeforeSend_calls i ?tr =
                (if BeforeSend (dms ! i) \<noteq> None then 1 else 0))
          \<and> filter (\<lambda>e. is_SendAllCall e \<or> is_SendAllDryRunCall e) ?tr =
              [if DryRun (opts t)
               then SendAllDryRunCall ms' (fst (SendAllDryRun (client t) ms' w'))
               else SendAllCall ms' (fst (SendAll (client t) ms' w'))]"
    if none: "e = None"
  proof -
    have evs: "evs = ?calls"
      using before_hooks_spec_events[OF assms(2)[unfolded none] len] by simp
    with 1 have 2: "filter is_BeforeSendCall ?tr = ?calls" by simp
    have 3: "length (filter is_BeforeSendCall ?tr) =
        length (filter (\<lambda>dm. BeforeSend dm \<noteq> None) dms)"
      unfolding 2 by (simp add: length_filter_enumerate)
    have 4: "BeforeSend_calls i ?tr = (if BeforeSend (dms ! i) \<noteq> None then 1 else 0)"
      if "i < length dms" for i
    proof -
      have "BeforeSend_calls i ?tr = BeforeSend_calls i ?calls"
        using BeforeSend_calls_filter[of i ?tr] 2 by simp
      also have "\<dots> = (if BeforeSend (dms ! i) \<noteq> None then 1 else 0)"
        using BeforeSend_calls_enumerate[of i "\<lambda>k dm. BeforeSend dm \<noteq> None" 0 dms] that
        by simp
      finally show ?thesis .
    qed
    from d none have d': "decode_loop unm 0 dms [] ?s0 = (Next ms', ?s1)" by simp
    have 5: "filter (\<lambda>e. is_SendAllCall e \<or> is_SendAllDryRunCall e) ?tr =
           [if DryRun (opts t)
            then SendAllDryRunCall ms' (fst (SendAllDryRun (client t) ms' w'))
            else SendAllCall ms' (fst (SendAll (client t) ms' w'))]"
      using backend_calls_SendBatch[OF d', of now t] by simp
    from 2 3 4 5 show ?thesis by blast
  qed
  have failed: "backend_replies ?tr = []
          \<and> (MetricService (opts t) = Some sink \<longrightarrow>
                fst (SendBatch unm now t dms w) = Return (Some err))"
    if some: "e = Some err"
  proof -
    from d some have d': "decode_loop unm 0 dms [] ?s0 = (Stop (Return (Some err)), ?s1)"
      by simp
    then have body: "SendBatch_body unm t dms ?s0 = (Return (Some err), ?s1)"
      by (simp add: SendBatch_body_def)
    have "backend_replies ?tr = []"
      using d' by (simp add: backend_replies_SendBatch)
    moreover have "fst (SendBatch unm now t dms w) = Return (Some err)"
      if "MetricService (opts t) = Some sink"
      using SendBatch_trace(3)[OF body, of now] that by simp
    ultimately show ?thesis by blast
  qed
  from 1 ok failed show ?thesis by blast
qed

theorem before_hooks_in_order_witness:
  "map (\<lambda>dm. sample_unmarshal (Body dm)) three_requests = map Inr [''a'', ''b'', ''c'']
   \<and> before_hooks_spec 0 three_requests [''a'', ''b'', ''c''] 0 =
       (None, [''a-seen'', ''b'', ''c-seen''], 2, [BeforeSendCall 0 None, BeforeSendCall 2 None])
   \<and> filter is_BeforeSendCall (trace (snd (SendBatch sample_unmarshal sample_clock
       (sample_topic (replying_client partly_sent)) three_requests 0))) =
       [BeforeSendCall 0 None, BeforeSendCall 2 None]
   \<and> BeforeSend_calls 0 (trace (snd (SendBatch sample_unmarshal sample_clock
       (sample_topic (replying_client partly_sent)) three_requests 0))) = 1
   \<and> BeforeSend_calls 1 (trace (snd (SendBatch sample_unmarshal sample_clock
       (sample_topic (replying_client partly_sent)) three_requests 0))) = 0
   \<and> filter (\<lambda>e. is_SendAllCall e \<or> is_SendAllDryRunCall e)
       (trace (snd (SendBatch sample_unmarshal sample_clock
       (sample_topic (replying_client partly_sent)) three_requests 0))) =
       [SendAllCall [''a-seen'', ''b'', ''c-seen''] (Inr partly_sent)]"
proof -
  let ?t = "sample_topic (replying_client partly_sent)"
  let ?tr = "trace (snd (SendBatch sample_unmarshal sample_clock ?t three_requests 0))"
  have h1: "map (\<lambda>dm. sample_unmarshal (Body dm)) three_requests = map Inr [''a'', ''b'', ''c'']"
    by (simp add: three_requests_def sample_unmarshal_def topic_payload_def)
  have h2: "before_hooks_spec 0 three_requests [''a'', ''b'', ''c''] 0 =
       (None, [''a-seen'', ''b'', ''c-seen''], 2, [BeforeSendCall 0 None, BeforeSendCall 2 None])"
    by (simp add: three_requests_def before_ok_def)
  have l: "length three_requests = 3" by (simp add: three_requests_def)
  from before_hooks_in_order[OF h1 h2, of sample_clock ?t]
  have a: "filter is_BeforeSendCall ?tr = [BeforeSendCall 0 None, BeforeSendCall 2 None]"
    and c: "\<forall>i < length three_requests. BeforeSend_calls i ?tr =
             (if BeforeSend (three_requests ! i) \<noteq> None then 1 else 0)"
    and b: "filter (\<lambda>e. is_SendAllCall e \<or> is_SendAllDryRunCall e) ?tr =
           [if DryRun (opts ?t)
            then SendAllDryRunCall [''a-seen'', ''b'', ''c-seen'']
                   (fst (SendAllDryRun (client ?t) [''a-seen'', ''b'', ''c-seen''] 2))
            else SendAllCall [''a-seen'', ''b'', ''c-seen'']
                   (fst (SendAll (client ?t) [''a-seen'', ''b'', ''c-seen''] 2))]"
    by blast+
  from c l have c': "BeforeSend_calls 0 ?tr = 1" "BeforeSend_calls 1 ?tr = 0"
    by (simp_all add: three_requests_def)
  have cl: "fst (SendAll (client ?t) es v) = Inr partly_sent" for es v
    by (simp add: sample_topic_def replying_client_def)
  from b have b': "filter (\<lambda>e. is_SendAllCall e \<or> is_SendAllDryRunCall e) ?tr =
       [SendAllCall [''a-seen'', ''b'', ''c-seen''] (Inr partly_sent)]"
    by (simp add: cl)
  from h1 h2 a c' b' show ?thesis by blast
qed

section \<open>A decode failure\<close>





section \<open>The after-send hooks\<close>



lemma entry_log_no_call [simp]: "filter is_AfterSendCall (entry_log m r) = []"
  by (simp add: entry_log_def split: option.splits)







text \<open>
  C2. The claim asks for one invocation of each after-send hook of a successful entry,
  also when every entry succeeded. The code then runs every after-send hook a second
  time: for a batch of one request with a JSON payload and an after-send hook, a backend
  that reports one success out of one, and a hook that returns no error, the
  reconciliation of the specification invokes the hook once, and \<^verbatim>\<open>SendBatch\<close> invokes
  it twice.
\<close>

theorem after_hook_invoked_twice:
  "sample_unmarshal (Body (one_request ! 0)) = Inr ''a''
   \<and> AfterSend (one_request ! 0) = Some after_ok
   \<and> Success (Responses all_sent ! 0)
   \<and> after_hooks_spec 0 one_request (Responses all_sent) [''a''] 5 =
       (None, 6, [AfterSendCall 0 None])
   \<and> SendBatch sample_unmarshal sample_clock (sample_topic (replying_client all_sent))
       one_request 0 =
       (Return None,
        \<lparr>world = 7,
         trace =
           [SendAllCall [''a''] (Inr all_sent),
            AfterSendCall 0 None, AfterSendCall 0 None,
            Timing ''firebase.messagine.sendBatch.latency'' 7 [''env:test'']]\<rparr>)
   \<and> backend_replies (trace (snd (SendBatch sample_unmarshal sample_clock
       (sample_topic (replying_client all_sent)) one_request 0))) = [Inr all_sent]
   \<and> BeforeSend_errors (trace (snd (SendBatch sample_unmarshal sample_clock
       (sample_topic (replying_client all_sent)) one_request 0))) = []
   \<and> AfterSend_errors (trace (snd (SendBatch sample_unmarshal sample_clock
       (sample_topic (replying_client all_sent)) one_request 0))) = []
   \<and> AfterSend_calls 0 (trace (snd (SendBatch sample_unmarshal sample_clock
       (sample_topic (replying_client all_sent)) one_request 0))) = 2"
  by (simp add: run_all_sent backend_replies_def BeforeSend_errors_def AfterSend_errors_def
      AfterSend_calls_def)
    (simp add: all_sent_def sent_ok_def one_request_def sample_unmarshal_def topic_payload_def
      after_ok_def entry_log_def)

section \<open>Nil sink and nil logger\<close>

text \<open>
  C4. A topic opened with nil options has a nil metrics sink and a nil logger, and every
  \<^verbatim>\<open>SendBatch\<close> call on it panics. More generally a call on a topic with a nil metrics
  sink panics, whatever the batch (the deferred \<^verbatim>\<open>Timing\<close> call), so a call that does
  not panic was made with a sink; and a call on a topic with a nil logger panics when the
  backend call returns a call-level error.
\<close>

theorem nil_options_panic:
  "MetricService (opts (openFCMTopic cl None)) = None
   \<and> Logger (opts (openFCMTopic cl None)) = None
   \<and> fst (SendBatch unm now (openFCMTopic cl None) dms w) = Panic
   \<and> (MetricService (opts t) = None \<longrightarrow> fst (SendBatch unm now t dms w) = Panic)
   \<and> (Logger (opts t) = None \<and>
        Inl err \<in> set (backend_replies (trace (snd (SendBatch unm now t dms w)))) \<longrightarrow>
        fst (SendBatch unm now t dms w) = Panic)"
proof -
  have sink: "fst (SendBatch unm now t' dms w) = Panic" if "MetricService (opts t') = None"
    for t' :: "('a, 'b) fcmTopic"
    using that by (simp add: SendBatch_def split: prod.splits)
  have 1: "MetricService (opts (openFCMTopic cl None)) = None"
    and 2: "Logger (opts (openFCMTopic cl None)) = None"
    by (simp_all add: openFCMTopic_def empty_TopicOptions_def)
  have 5: "fst (SendBatch unm now t dms w) = Panic"
    if l: "Logger (opts t) = None"
      and r: "Inl err \<in> set (backend_replies (trace (snd (SendBatch unm now t dms w))))"
  proof -
    let ?s0 = "\<lparr>world = w, trace = []\<rparr> :: ('a, 'b) state"
    from r obtain entries s1 s2 where
      "SendBatch_body unm t dms ?s0 =
       (case Logger (opts t) of
          None \<Rightarrow> (Panic, s2)
        | Some l \<Rightarrow> (Return (Some err),
             s2\<lparr>trace := trace s2 @ [LoggerError ''Error from response entity''
                            ''pubsub.firebase.sendBatch.response'' err None]\<rparr>))"
      by (rule replied_error)
    with l have body: "SendBatch_body unm t dms ?s0 = (Panic, s2)" by simp
    show ?thesis
      using SendBatch_trace(3)[OF body, of now] by (simp split: option.splits)
  qed
  from 1 2 sink[OF 1] sink[of t] 5 show ?thesis by blast
qed

theorem nil_options_panic_witness:
  "fst (SendBatch sample_unmarshal sample_clock (openFCMTopic failing_client None)
          three_requests 0) = Panic
   \<and> Logger (opts (unlogged_topic failing_client)) = None
   \<and> MetricService (opts (unlogged_topic failing_client)) = Some MetricSink
   \<and> fst (SendBatch sample_unmarshal sample_clock (unlogged_topic failing_client)
          three_requests 0) = Panic"
proof -
  let ?t = "unlogged_topic failing_client"
  have h0: "MetricService (opts (openFCMTopic failing_client None)) = None"
    by (simp add: openFCMTopic_def empty_TopicOptions_def)
  have h1: "Logger (opts ?t) = None"
    and h1': "MetricService (opts ?t) = Some MetricSink"
    by (simp_all add: unlogged_topic_def sample_options_def)
  have h2: "Inl ''unavailable'' \<in> set (backend_replies (trace (snd
      (SendBatch sample_unmarshal sample_clock ?t three_requests 0))))"
    by (simp add: SendBatch_defs sample_defs unlogged_topic_def backend_replies_def)
  from nil_options_panic[of failing_client sample_unmarshal sample_clock three_requests 0
      "openFCMTopic failing_client None" "''unavailable''"] h0
  have a: "fst (SendBatch sample_unmarshal sample_clock (openFCMTopic failing_client None)
          three_requests 0) = Panic" by blast
  from nil_options_panic[of failing_client sample_unmarshal sample_clock three_requests 0
      ?t "''unavailable''"] h1 h2
  have b: "fst (SendBatch sample_unmarshal sample_clock ?t three_requests 0) = Panic"
    by blast
  from a h1 h1' b show ?thesis by blast
qed


section \<open>Dry run\<close>

lemma map_trace_simps [simp]:
  "world (map_trace g s) = world s"
  "trace (map_trace g s) = map g (trace s)"
  by (simp_all add: map_trace_def)

lemma map_trace_append:
  "g e = e \<Longrightarrow> map_trace g (s\<lparr>trace := trace s @ [e]\<rparr>) =
     (map_trace g s)\<lparr>trace := trace (map_trace g s) @ [e]\<rparr>"
  by (simp add: map_trace_def)

lemma call_AfterSend_rename:
  "call_AfterSend n dm rs (map_trace rename_call s) =
     apsnd (map_trace rename_call) (call_AfterSend n dm rs s)"
  by (auto simp: call_AfterSend_def map_trace_def split: option.splits prod.splits)

lemma response_loop_rename:
  "response_loop lg entries n dms rs (map_trace rename_call s) =
     apsnd (map_trace rename_call) (response_loop lg entries n dms rs s)"
proof (induction dms arbitrary: n rs s)
  case Nil
  show ?case by simp
next
  case (Cons dm dms)
  show ?case
  proof (cases "length rs \<le> n")
    case True
    then show ?thesis by simp
  next
    case False
    obtain x s1 where c: "(if Success (rs ! n) then call_AfterSend n dm rs s else (Next rs, s)) = (x, s1)"
      by (cases "(if Success (rs ! n) then call_AfterSend n dm rs s else (Next rs, s))") auto
    then have c': "(if Success (rs ! n) then call_AfterSend n dm rs (map_trace rename_call s)
                    else (Next rs, map_trace rename_call s)) = (x, map_trace rename_call s1)"
      by (auto simp: call_AfterSend_rename split: if_splits)
    show ?thesis
    proof (cases x)
      case (Stop out)
      with False c c' show ?thesis by simp
    next
      case (Next rs')
      show ?thesis
      proof (cases "Error (rs' ! n)")
        case None
        with False c c' Next Cons.IH[of "Suc n" rs' s1] show ?thesis by simp
      next
        case (Some e)
        show ?thesis
        proof (cases "length entries \<le> n \<or> lg = None")
          case True
          with False c c' Next Some show ?thesis by (auto split: option.splits)
        next
          case F: False
          then obtain l where l: "lg = Some l" by auto
          let ?log = "LoggerError ''Error from response entity''
                  ''pubsub.firebase.sendBatch.resposneEntity'' e (Some (entries ! n, rs' ! n)) :: 'a event"
          have m: "map_trace rename_call (s1\<lparr>trace := trace s1 @ [?log]\<rparr>) =
              (map_trace rename_call s1)\<lparr>trace := trace (map_trace rename_call s1) @ [?log]\<rparr>"
            by (rule map_trace_append) simp
          from False c Next Some F l
          have lhs: "response_loop lg entries n (dm # dms) rs s =
              response_loop lg entries (Suc n) dms rs' (s1\<lparr>trace := trace s1 @ [?log]\<rparr>)"
            by simp
          from False c' Next Some F l
          have rhs: "response_loop lg entries n (dm # dms) rs (map_trace rename_call s) =
              response_loop lg entries (Suc n) dms rs'
                ((map_trace rename_call s1)\<lparr>trace := trace (map_trace rename_call s1) @ [?log]\<rparr>)"
            by simp
          show ?thesis
            unfolding lhs rhs m[symmetric] by (rule Cons.IH)
        qed
      qed
    qed
  qed
qed

lemma all_success_loop_rename:
  "all_success_loop n dms rs (map_trace rename_call s) =
     apsnd (map_trace rename_call) (all_success_loop n dms rs s)"
proof (induction dms arbitrary: n rs s)
  case Nil
  show ?case by simp
next
  case (Cons dm dms)
  obtain x s1 where c: "call_AfterSend n dm rs s = (x, s1)"
    by (cases "call_AfterSend n dm rs s") auto
  then have c': "call_AfterSend n dm rs (map_trace rename_call s) = (x, map_trace rename_call s1)"
    by (simp add: call_AfterSend_rename)
  show ?case
  proof (cases x)
    case (Stop out)
    with c c' show ?thesis by simp
  next
    case (Next rs')
    with c c' Cons.IH[of "Suc n" rs' s1] show ?thesis by simp
  qed
qed

lemma count_failures_rename:
  "count_failures t resp (map_trace rename_call s) =
     apsnd (map_trace rename_call) (count_failures t resp s)"
  by (auto simp: count_failures_def map_trace_def split: option.splits)

lemma handle_response_rename:
  "handle_response t dms entries resp (map_trace rename_call s) =
     apsnd (map_trace rename_call) (handle_response t dms entries resp s)"
proof -
  obtain x s1 where c1: "count_failures t resp s = (x, s1)"
    by (cases "count_failures t resp s") auto
  then have c1': "count_failures t resp (map_trace rename_call s) = (x, map_trace rename_call s1)"
    by (simp add: count_failures_rename)
  show ?thesis
  proof (cases x)
    case (Stop out)
    with c1 c1' show ?thesis by (simp add: handle_response_def)
  next
    case (Next u)
    obtain y s2 where c2: "response_loop (Logger (opts t)) entries 0 dms (Responses resp) s1 = (y, s2)"
      by (cases "response_loop (Logger (opts t)) entries 0 dms (Responses resp) s1") auto
    then have c2': "response_loop (Logger (opts t)) entries 0 dms (Responses resp)
        (map_trace rename_call s1) = (y, map_trace rename_call s2)"
      by (simp add: response_loop_rename)
    show ?thesis
    proof (cases y)
      case (Stop out)
      with c1 c1' Next c2 c2' show ?thesis by (simp add: handle_response_def)
    next
      case N: (Next rs)
      obtain z s3 where c3: "all_success_loop 0 dms rs s2 = (z, s3)"
        by (cases "all_success_loop 0 dms rs s2") auto
      then have c3': "all_success_loop 0 dms rs (map_trace rename_call s2) =
          (z, map_trace rename_call s3)"
        by (simp add: all_success_loop_rename)
      from c1 c1' Next c2 c2' N c3 c3' show ?thesis
        by (cases z) (simp_all add: handle_response_def)
    qed
  qed
qed

lemma handle_response_opts:
  assumes "MetricService (opts t') = MetricService (opts t)"
    and "Tags (opts t') = Tags (opts t)"
    and "Logger (opts t') = Logger (opts t)"
  shows "handle_response t' dms entries resp s = handle_response t dms entries resp s"
  unfolding handle_response_def count_failures_def assms by (rule refl)

lemma live_twin_opts [simp]:
  "MetricService (opts (live_twin t)) = MetricService (opts t)"
  "Tags (opts (live_twin t)) = Tags (opts t)"
  "Logger (opts (live_twin t)) = Logger (opts t)"
  "DryRun (opts (live_twin t)) = False"
  "SendAll (client (live_twin t)) = SendAllDryRun (client t)"
  by (simp_all add: live_twin_def swap_entry_points_def)

lemma rename_before_calls:
  "\<forall>e \<in> set tr. is_BeforeSendCall e \<Longrightarrow> map rename_call tr = tr"
proof (induction tr)
  case Nil
  show ?case by simp
next
  case (Cons e tr)
  then have "rename_call e = e" by (cases e) auto
  with Cons show ?case by simp
qed

lemma SendBatch_body_dry_run:
  assumes "DryRun (opts t)" and "trace s = []"
  shows "SendBatch_body unm t dms s =
           apsnd (map_trace rename_call) (SendBatch_body unm (live_twin t) dms s)"
proof -
  obtain r s1 where d: "decode_loop unm 0 dms [] s = (r, s1)"
    by (cases "decode_loop unm 0 dms [] s") auto
  have "\<forall>e \<in> set (trace s1). is_BeforeSendCall e"
    using decode_loop_emits[OF d] assms(2) by (auto simp: emits_def)
  then have keep: "map rename_call (trace s1) = trace s1" by (rule rename_before_calls)
  then have s1: "map_trace rename_call s1 = s1" by (simp add: map_trace_def)
  show ?thesis
  proof (cases r)
    case (Stop out)
    with d s1 show ?thesis by (simp add: SendBatch_body_def)
  next
    case (Next entries)
    obtain rep w' where b: "SendAllDryRun (client t) entries (world s1) = (rep, w')"
      by (cases "SendAllDryRun (client t) entries (world s1)") auto
    let ?live = "\<lparr>world = w', trace = trace s1 @ [SendAllCall entries rep]\<rparr> :: ('a, 'b) state"
    have dry: "send_entries t entries s1 = (rep, map_trace rename_call ?live)"
      using assms(1) b keep by (simp add: send_entries_def map_trace_def)
    have live: "send_entries (live_twin t) entries s1 = (rep, ?live)"
      using b by (simp add: send_entries_def)
    show ?thesis
    proof (cases rep)
      case (Inl err)
      with d Next dry live show ?thesis
        by (simp add: SendBatch_body_def map_trace_def split: option.splits)
    next
      case (Inr resp)
      have "handle_response (live_twin t) dms entries resp ?live =
            handle_response t dms entries resp ?live"
        by (rule handle_response_opts) simp_all
      with d Next dry live Inr show ?thesis
        by (simp add: SendBatch_body_def handle_response_rename)
    qed
  qed
qed

text \<open>
  C9. On a topic with the dry-run flag set, \<^verbatim>\<open>SendBatch\<close> never calls the live entry
  point, and it behaves as on the topic with the flag cleared whose client has the two
  entry points exchanged: the same outcome, the same final outside state and the same
  events (hooks, logs, metrics) in the same order, except that the backend call is the
  dry-run one.
\<close>

theorem dry_run_same_behaviour:
  assumes "DryRun (opts t)"
  shows "SendBatch unm now t dms w =
           apsnd (map_trace rename_call) (SendBatch unm now (live_twin t) dms w)
       \<and> filter is_SendAllCall (trace (snd (SendBatch unm now t dms w))) = []
       \<and> filter is_SendAllDryRunCall (trace (snd (SendBatch unm now (live_twin t) dms w))) = []"
proof -
  let ?s0 = "\<lparr>world = w, trace = []\<rparr> :: ('a, 'b) state"
  obtain out s where live: "SendBatch_body unm (live_twin t) dms ?s0 = (out, s)"
    by (cases "SendBatch_body unm (live_twin t) dms ?s0") auto
  have dry: "SendBatch_body unm t dms ?s0 = (out, map_trace rename_call s)"
    using SendBatch_body_dry_run[OF assms, of ?s0 unm dms] live by simp
  have 1: "SendBatch unm now t dms w =
           apsnd (map_trace rename_call) (SendBatch unm now (live_twin t) dms w)"
    using live dry by (simp add: SendBatch_def map_trace_def split: option.splits)
  have "filter is_SendAllCall (trace (map_trace rename_call s)) = filter is_SendAllCall (trace ?s0)"
    by (rule emits_filter_none[OF SendBatch_body_emits_mode[OF dry]]) (use assms in auto)
  then have 2: "filter is_SendAllCall (trace (snd (SendBatch unm now t dms w))) = []"
    using SendBatch_trace(1)[OF dry, of now] by (simp split: option.splits)
  have "filter is_SendAllDryRunCall (trace s) = filter is_SendAllDryRunCall (trace ?s0)"
    by (rule emits_filter_none[OF SendBatch_body_emits_mode[OF live]]) auto
  then have 3: "filter is_SendAllDryRunCall (trace (snd (SendBatch unm now (live_twin t) dms w))) = []"
    using SendBatch_trace(1)[OF live, of now] by (simp split: option.splits)
  from 1 2 3 show ?thesis by blast
qed

theorem dry_run_same_behaviour_witness:
  "DryRun (opts (dry_run_topic (replying_client partly_sent)))
   \<and> SendBatch sample_unmarshal sample_clock (dry_run_topic (replying_client partly_sent))
       three_requests 0 =
     apsnd (map_trace rename_call)
       (SendBatch sample_unmarshal sample_clock
          (live_twin (dry_run_topic (replying_client partly_sent))) three_requests 0)
   \<and> backend_replies (trace (snd (SendBatch sample_unmarshal sample_clock
       (dry_run_topic (replying_client partly_sent)) three_requests 0))) = [Inr partly_sent]
   \<and> filter is_SendAllCall (trace (snd (SendBatch sample_unmarshal sample_clock
       (dry_run_topic (replying_client partly_sent)) three_requests 0))) = []"
proof -
  let ?t = "dry_run_topic (replying_client partly_sent)"
  have h: "DryRun (opts ?t)" by (simp add: dry_run_topic_def)
  have r: "backend_replies (trace (snd (SendBatch sample_unmarshal sample_clock ?t
       three_requests 0))) = [Inr partly_sent]"
    by (simp add: SendBatch_defs sample_defs dry_run_topic_def backend_replies_def)
  from dry_run_same_behaviour[OF h, of sample_unmarshal sample_clock three_requests 0] h r
  show ?thesis by blast
qed

end
